theory Spec2Isabelle
  imports Complex_Main "HOL-Library.AList"
begin

section \<open>AirLab collector: normalisation, validation, collection episode, durable write\<close>

text \<open>
  A shallow embedding of \<^verbatim>\<open>airlab_collector.py\<close>. Every function of the source that
  takes part in a reading's way from an MQTT message to a database row is a HOL
  function of the same name. Python exceptions are values of \<open>py_error\<close>, a function
  that can raise returns \<open>py_error + 'a\<close> with \<open>Inl\<close> for the exception. Python
  dictionaries are association lists in insertion order with distinct keys.
\<close>

subsection \<open>Python strings\<close>

text \<open>
  A Python \<^verbatim>\<open>str\<close> is modelled by \<open>string\<close>; a character is read as the code point
  of the same number, U+0000 to U+00FF. On these code points \<^verbatim>\<open>str.lower()\<close> moves
  A-Z and the Latin-1 capitals U+00C0 to U+00DE (without the multiplication sign
  U+00D7) up by 32 and leaves every other character as it is, and \<^verbatim>\<open>str.strip()\<close>
  removes the characters for which \<^verbatim>\<open>str.isspace()\<close> holds: U+0009 to U+000D,
  U+001C to U+0020, U+0085 and U+00A0. Code points above U+00FF are outside the model.
\<close>

definition lower_char :: "char \<Rightarrow> char" where
  "lower_char c =
     (let n = (of_char c :: nat)
      in if (65 \<le> n \<and> n \<le> 90) \<or> (192 \<le> n \<and> n \<le> 222 \<and> n \<noteq> 215)
         then char_of (n + 32) else c)"

definition lower :: "string \<Rightarrow> string" where
  "lower s = map lower_char s"

definition isspace :: "char \<Rightarrow> bool" where
  "isspace c =
     (let n = (of_char c :: nat)
      in (9 \<le> n \<and> n \<le> 13) \<or> (28 \<le> n \<and> n \<le> 32) \<or> n = 133 \<or> n = 160)"

text \<open>\<^verbatim>\<open>s.strip(chars)\<close> for a set of characters given as a predicate.\<close>

definition strip_chars :: "(char \<Rightarrow> bool) \<Rightarrow> string \<Rightarrow> string" where
  "strip_chars p s = rev (dropWhile p (rev (dropWhile p s)))"

definition strip :: "string \<Rightarrow> string" where
  "strip s = strip_chars isspace s"

fun startswith :: "string \<Rightarrow> string \<Rightarrow> bool" where
  "startswith s [] = True"
| "startswith [] (p # ps) = False"
| "startswith (c # cs) (p # ps) = (c = p \<and> startswith cs ps)"

definition endswith :: "string \<Rightarrow> string \<Rightarrow> bool" where
  "endswith s suffix = startswith (rev s) (rev suffix)"

text \<open>\<^verbatim>\<open>sub in s\<close> on strings: \<open>sub\<close> occurs in \<open>s\<close> as a contiguous block.\<close>

fun str_contains :: "string \<Rightarrow> string \<Rightarrow> bool" where
  "str_contains sub [] = (sub = [])"
| "str_contains sub (c # cs) = (startswith (c # cs) sub \<or> str_contains sub cs)"

text \<open>
  \<^verbatim>\<open>s.split(d)\<close> for a one-character delimiter: never empty, \<^verbatim>\<open>"".split("/")\<close> is
  \<^verbatim>\<open>[""]\<close> and \<^verbatim>\<open>"a//b".split("/")\<close> is \<^verbatim>\<open>["a", "", "b"]\<close>.
\<close>

fun split_on :: "char \<Rightarrow> string \<Rightarrow> string list" where
  "split_on d [] = [[]]"
| "split_on d (c # cs) =
     (if c = d then [] # split_on d cs
      else (case split_on d cs of
              [] \<Rightarrow> [[c]]
            | w # ws \<Rightarrow> (c # w) # ws))"

subsection \<open>Dictionaries\<close>

text \<open>
  \<^verbatim>\<open>d.get(k)\<close> is \<open>map_of d k\<close>, \<^verbatim>\<open>d[k] = v\<close> is \<open>AList.update k v d\<close>: an existing key
  keeps its place and takes the new value, a new key goes to the end, as in a Python
  \<^verbatim>\<open>dict\<close>. \<^verbatim>\<open>d.update(e)\<close> stores the items of \<open>e\<close> in their order.
\<close>

definition dict_update :: "('k \<times> 'v) list \<Rightarrow> ('k \<times> 'v) list \<Rightarrow> ('k \<times> 'v) list" where
  "dict_update d e = fold (\<lambda>(k, v) acc. AList.update k v acc) e d"

subsection \<open>The alias table and the canonicalizer\<close>

definition FIELD_ALIASES :: "(string \<times> string) list" where
  "FIELD_ALIASES =
     [(''co2'', ''co2_ppm''),
      (''carbon_dioxide'', ''co2_ppm''),
      (''co2_ppm'', ''co2_ppm''),
      (''temperature'', ''temperature_c''),
      (''temp'', ''temperature_c''),
      (''temperature_c'', ''temperature_c''),
      (''humidity'', ''humidity_percent''),
      (''rh'', ''humidity_percent''),
      (''relative_humidity'', ''humidity_percent''),
      (''humidity_percent'', ''humidity_percent''),
      (''pressure'', ''pressure_hpa''),
      (''pressure_hpa'', ''pressure_hpa''),
      (''voc'', ''voc_index''),
      (''voc_index'', ''voc_index''),
      (''nox'', ''nox_index''),
      (''nox_index'', ''nox_index'')]"

definition canonicalize :: "string \<Rightarrow> string option" where
  "canonicalize field = map_of FIELD_ALIASES (strip (lower field))"

text \<open>The six canonical metric names: the values of the alias table.\<close>

definition canonical_metrics :: "string list" where
  "canonical_metrics = remdups (map snd FIELD_ALIASES)"

subsection \<open>Python values, floats and exceptions\<close>

text \<open>
  A Python \<^verbatim>\<open>float\<close> is a finite number, an infinity or NaN. The finite doubles are
  real numbers and Python compares an \<^verbatim>\<open>int\<close> with a \<^verbatim>\<open>float\<close> by their exact values,
  so a finite float is carried as the real number it denotes. A comparison with NaN
  is false.
\<close>

datatype pyfloat = Fin real | PosInf | NegInf | NaN

fun float_le :: "pyfloat \<Rightarrow> pyfloat \<Rightarrow> bool" where
  "float_le NaN y = False"
| "float_le x NaN = False"
| "float_le NegInf y = True"
| "float_le x PosInf = True"
| "float_le (Fin x) (Fin y) = (x \<le> y)"
| "float_le PosInf y = False"
| "float_le x NegInf = False"

text \<open>The values \<^verbatim>\<open>json.loads\<close> returns; a \<^verbatim>\<open>dict\<close> keeps its items in order.\<close>

datatype pyval =
    PNone
  | PBool bool
  | PInt int
  | PFloat pyfloat
  | PStr string
  | PList "pyval list"
  | PDict "(string \<times> pyval) list"

datatype py_error =
    JSONDecodeError
  | ValueError
  | TypeError
  | OverflowError
  | RecursionError
  | KeyboardInterrupt
  | OSError
  | OperationalError string
  | IntegrityError string
  | DatabaseError string

text \<open>
  \<^verbatim>\<open>except ValueError\<close> also catches \<^verbatim>\<open>json.JSONDecodeError\<close>, a subclass of it.
  \<^verbatim>\<open>except Exception\<close> catches everything here but \<^verbatim>\<open>KeyboardInterrupt\<close>.
\<close>

definition isinstance_ValueError :: "py_error \<Rightarrow> bool" where
  "isinstance_ValueError e = (e = ValueError \<or> e = JSONDecodeError)"

definition isinstance_Exception :: "py_error \<Rightarrow> bool" where
  "isinstance_Exception e = (e \<noteq> KeyboardInterrupt)"

text \<open>
  The two library functions the collector calls on text, \<^verbatim>\<open>json.loads\<close> and \<^verbatim>\<open>float\<close>
  on a \<^verbatim>\<open>str\<close>, are parameters of the model. \<open>float_of_str s = None\<close> stands for the
  \<^verbatim>\<open>ValueError\<close> that \<^verbatim>\<open>float(s)\<close> raises on text that is no number; \<^verbatim>\<open>float\<close> on a
  \<^verbatim>\<open>str\<close> raises nothing else (a literal too large is \<^verbatim>\<open>inf\<close>).
\<close>

record pylib =
  json_loads :: "string \<Rightarrow> py_error + pyval"
  float_of_str :: "string \<Rightarrow> pyfloat option"

fun bit_length :: "nat \<Rightarrow> nat" where
  "bit_length n = (if n = 0 then 0 else Suc (bit_length (n div 2)))"

text \<open>
  \<^verbatim>\<open>float(n)\<close> for an \<^verbatim>\<open>int\<close>: the nearest double, ties to even on 53 bits, and
  \<^verbatim>\<open>OverflowError\<close> ("int too large to convert to float") when that is 2^1024 or more.
\<close>

definition float_of_int :: "int \<Rightarrow> py_error + pyfloat" where
  "float_of_int n =
     (let a = nat \<bar>n\<bar>;
          e = bit_length a - 53;
          q = a div 2 ^ e;
          r = a mod 2 ^ e;
          q' = (if 2 ^ e < 2 * r \<or> (2 * r = 2 ^ e \<and> odd q) then q + 1 else q);
          m = q' * 2 ^ e
      in if 2 ^ 1024 \<le> m then Inl OverflowError
         else Inr (Fin (of_int (sgn n * int m))))"

text \<open>The builtin \<^verbatim>\<open>float(value)\<close> on the values the collector passes to it.\<close>

fun py_float :: "pylib \<Rightarrow> pyval \<Rightarrow> py_error + pyfloat" where
  "py_float L (PStr s) = (case float_of_str L s of None \<Rightarrow> Inl ValueError | Some x \<Rightarrow> Inr x)"
| "py_float L (PInt n) = float_of_int n"
| "py_float L (PBool b) = Inr (Fin (if b then 1 else 0))"
| "py_float L (PFloat x) = Inr x"
| "py_float L PNone = Inl TypeError"
| "py_float L (PList xs) = Inl TypeError"
| "py_float L (PDict kvs) = Inl TypeError"

text \<open>
  \<^verbatim>\<open>try_float\<close>: \<open>Inr None\<close> is the \<^verbatim>\<open>None\<close> it returns from its \<^verbatim>\<open>except\<close> clause,
  \<open>Inl e\<close> an exception that the clause \<^verbatim>\<open>except (ValueError, TypeError)\<close> lets through.
\<close>

definition try_float :: "pylib \<Rightarrow> pyval \<Rightarrow> py_error + pyfloat option" where
  "try_float L v =
     (case py_float L v of
        Inr x \<Rightarrow> Inr (Some x)
      | Inl e \<Rightarrow> if isinstance_ValueError e \<or> e = TypeError then Inr None else Inl e)"

subsection \<open>The payload normalizer\<close>

text \<open>The body of the \<^verbatim>\<open>for key, value in data.items()\<close> loop of \<^verbatim>\<open>parse_json_payload\<close>.\<close>

fun parse_items :: "pylib \<Rightarrow> (string \<times> pyval) list \<Rightarrow> (string \<times> pyfloat) list
    \<Rightarrow> py_error + (string \<times> pyfloat) list" where
  "parse_items L [] reading = Inr reading"
| "parse_items L ((key, v) # rest) reading =
     (case canonicalize key of
        None \<Rightarrow> parse_items L rest reading
      | Some canon \<Rightarrow>
          if canon = [] then parse_items L rest reading
          else (case try_float L v of
                  Inl e \<Rightarrow> Inl e
                | Inr None \<Rightarrow> parse_items L rest reading
                | Inr (Some x) \<Rightarrow> parse_items L rest (AList.update canon x reading)))"

definition parse_json_payload :: "pylib \<Rightarrow> string \<Rightarrow> py_error + (string \<times> pyfloat) list" where
  "parse_json_payload L payload =
     (case json_loads L payload of
        Inl e \<Rightarrow> Inl e
      | Inr data \<Rightarrow>
          (case data of
             PDict items \<Rightarrow> parse_items L items []
           | _ \<Rightarrow> Inr []))"

text \<open>The \<^verbatim>\<open>for part in reversed(relative.split("/"))\<close> loop of \<^verbatim>\<open>parse_topic_value\<close>.\<close>

fun scan_parts :: "pylib \<Rightarrow> string list \<Rightarrow> string \<Rightarrow> py_error + (string \<times> pyfloat) list" where
  "scan_parts L [] payload = Inr []"
| "scan_parts L (part # rest) payload =
     (case canonicalize part of
        None \<Rightarrow> scan_parts L rest payload
      | Some canon \<Rightarrow>
          if canon = [] then scan_parts L rest payload
          else (case try_float L (PStr payload) of
                  Inl e \<Rightarrow> Inl e
                | Inr None \<Rightarrow> scan_parts L rest payload
                | Inr (Some x) \<Rightarrow> Inr [(canon, x)]))"

definition parse_topic_value :: "pylib \<Rightarrow> string \<Rightarrow> string \<Rightarrow> string
    \<Rightarrow> py_error + (string \<times> pyfloat) list" where
  "parse_topic_value L topic payload base_topic =
     (let relative =
            (if startswith topic base_topic
             then strip_chars (\<lambda>c. c = CHR ''/'') (drop (length base_topic) topic)
             else topic)
      in scan_parts L (rev (split_on CHR ''/'' relative)) payload)"

subsection \<open>The range validator\<close>

definition VALID_RANGES :: "(string \<times> real \<times> real) list" where
  "VALID_RANGES =
     [(''co2_ppm'', (150, 10000)),
      (''temperature_c'', (- 40, 85)),
      (''humidity_percent'', (0, 100)),
      (''pressure_hpa'', (300, 1200)),
      (''voc_index'', (0, 500)),
      (''nox_index'', (0, 500))]"

fun validate_reading :: "(string \<times> pyfloat) list \<Rightarrow> bool" where
  "validate_reading [] = True"
| "validate_reading ((key, v) # rest) =
     (case map_of VALID_RANGES key of
        None \<Rightarrow> validate_reading rest
      | Some bounds \<Rightarrow>
          if \<not> (float_le (Fin (fst bounds)) v \<and> float_le v (Fin (snd bounds))) then False
          else validate_reading rest)"

subsection \<open>The durable writer\<close>

text \<open>
  The storage engine is the environment: \<open>attempt_raises db k\<close> is what the \<open>k\<close>-th run
  of \<^verbatim>\<open>conn.execute\<close> and \<^verbatim>\<open>conn.commit\<close> raises, \<open>None\<close> when both succeed. A row is
  the six columns of the \<^verbatim>\<open>INSERT\<close>, \<open>None\<close> for a metric the reading lacks. The log
  lists what the writer did.
\<close>

record db_env =
  init_raises :: "py_error option"
  attempt_raises :: "nat \<Rightarrow> py_error option"

datatype db_event =
    Written "pyfloat option list"
  | Failed py_error
  | Slept real
  | Closed

definition row_of :: "(string \<times> pyfloat) list \<Rightarrow> pyfloat option list" where
  "row_of reading =
     map (map_of reading)
       [''co2_ppm'', ''temperature_c'', ''humidity_percent'',
        ''pressure_hpa'', ''voc_index'', ''nox_index'']"

definition max_retries :: nat where
  "max_retries = 3"

text \<open>The \<^verbatim>\<open>for attempt in range(max_retries)\<close> loop, on the attempts still to run.\<close>

fun insert_loop :: "db_env \<Rightarrow> (string \<times> pyfloat) list \<Rightarrow> nat list
    \<Rightarrow> (py_error + unit) \<times> db_event list" where
  "insert_loop db reading [] = (Inr (), [])"
| "insert_loop db reading (attempt # rest) =
     (case attempt_raises db attempt of
        None \<Rightarrow> (Inr (), [Written (row_of reading)])
      | Some exc \<Rightarrow>
          (case exc of
             OperationalError msg \<Rightarrow>
               if str_contains ''database is locked'' msg \<and> attempt < max_retries - 1
               then (let (res, evs) = insert_loop db reading rest
                     in (res, Failed exc # Slept (0.5 * (real attempt + 1)) # evs))
               else (Inl exc, [Failed exc])
           | _ \<Rightarrow> (Inl exc, [Failed exc])))"

definition insert_reading :: "db_env \<Rightarrow> (string \<times> pyfloat) list
    \<Rightarrow> (py_error + unit) \<times> db_event list" where
  "insert_reading db reading = insert_loop db reading [0..<max_retries]"

text \<open>
  Two notions for the statements on the writer: the storage engine reports contention when
  it raises \<^verbatim>\<open>OperationalError\<close> with "database is locked" in its text; an attempt
  is a run of the \<^verbatim>\<open>try\<close> body, which ends in a row written or in a failure.
\<close>

definition is_contention :: "py_error \<Rightarrow> bool" where
  "is_contention e =
     (case e of
        OperationalError msg \<Rightarrow> str_contains ''database is locked'' msg
      | _ \<Rightarrow> False)"

definition attempts :: "db_event list \<Rightarrow> nat" where
  "attempts evs =
     length (filter (\<lambda>ev. case ev of Written row \<Rightarrow> True | Failed e \<Rightarrow> True | _ \<Rightarrow> False) evs)"

subsection \<open>The collection episode\<close>

text \<open>
  A message as \<^verbatim>\<open>on_message\<close> sees it: the topic and the payload after
  \<^verbatim>\<open>decode("utf-8", errors="replace")\<close>. The closure variables of \<^verbatim>\<open>read_airlab\<close> are
  the fields \<open>reading\<close>, \<open>got_data\<close> and \<open>first_msg_time\<close> of the episode state;
  \<open>thread_alive\<close> is the network thread that \<^verbatim>\<open>loop_start\<close> begins, which ends when
  a callback raises.
\<close>

record message =
  msg_topic :: string
  msg_payload :: string

record config =
  cfg_base_topic :: string
  cfg_username :: string
  cfg_password :: string

text \<open>
  Lines 217 to 226 of \<^verbatim>\<open>on_message\<close>: the structured shape first, with
  \<^verbatim>\<open>except (json.JSONDecodeError, ValueError): pass\<close>, then the scalar shape when the
  first gave nothing.
\<close>

definition normalize_message :: "pylib \<Rightarrow> string \<Rightarrow> string \<Rightarrow> string
    \<Rightarrow> py_error + (string \<times> pyfloat) list" where
  "normalize_message L base_topic topic payload =
     (case (case parse_json_payload L payload of
              Inl e \<Rightarrow> if isinstance_ValueError e then Inr [] else Inl e
            | Inr p \<Rightarrow> Inr p) of
        Inl e \<Rightarrow> Inl e
      | Inr parsed \<Rightarrow>
          if parsed = [] then parse_topic_value L topic payload base_topic
          else Inr parsed)"

record episode =
  reading :: "(string \<times> pyfloat) list"
  got_data :: bool
  first_msg_time :: "real list"
  thread_alive :: bool

definition on_message :: "pylib \<Rightarrow> string \<Rightarrow> real \<Rightarrow> message \<Rightarrow> episode \<Rightarrow> py_error + episode" where
  "on_message L base_topic now msg st =
     (let payload = strip (msg_payload msg);
          topic = msg_topic msg
      in if endswith topic ''/config'' then Inr st
         else (case normalize_message L base_topic topic payload of
                 Inl e \<Rightarrow> Inl e
               | Inr parsed \<Rightarrow>
                   if parsed \<noteq> []
                   then Inr (st\<lparr>reading := dict_update (reading st) parsed,
                                got_data := True,
                                first_msg_time :=
                                  (if first_msg_time st = [] then first_msg_time st @ [now]
                                   else first_msg_time st)\<rparr>)
                   else Inr st))"

text \<open>
  The network thread hands each arriving message, with the clock value \<^verbatim>\<open>on_message\<close>
  would read, to the callback. An exception of the callback ends the thread: the
  state stays as it was and no later message is handled.
\<close>

fun deliver :: "pylib \<Rightarrow> string \<Rightarrow> (real \<times> message) list \<Rightarrow> episode \<Rightarrow> episode" where
  "deliver L base_topic [] st = st"
| "deliver L base_topic ((now, msg) # rest) st =
     (if \<not> thread_alive st then st
      else (case on_message L base_topic now msg st of
              Inl e \<Rightarrow> st\<lparr>thread_alive := False\<rparr>
            | Inr st' \<Rightarrow> deliver L base_topic rest st'))"

text \<open>
  One pass of the polling loop as the environment gives it: the clock the
  \<^verbatim>\<open>while\<close> condition reads, the messages handled during \<^verbatim>\<open>time.sleep(0.5)\<close>, an
  exception raised into the sleep (\<^verbatim>\<open>KeyboardInterrupt\<close> on SIGINT), and the clock
  read after the sleep.
\<close>

record tick =
  t_check :: real
  arrivals :: "(real \<times> message) list"
  sleep_raises :: "py_error option"
  t_wake :: real

record bus_env =
  connect_raises :: "py_error option"
  t_start :: real
  ticks :: "tick list"
  late_arrivals :: "(real \<times> message) list"

datatype client_call = UsernamePwSet | Connect | LoopStart | LoopStop | Disconnect

definition collect_window :: real where
  "collect_window = 3"

text \<open>
  The \<^verbatim>\<open>while time.monotonic() < deadline\<close> loop. \<open>None\<close>: the ticks given end while
  the loop is still running. \<open>Some (Inl e)\<close>: \<open>e\<close> leaves the loop. \<open>Some (Inr st)\<close>: the
  loop ended, by \<^verbatim>\<open>break\<close> or by its condition, in state \<open>st\<close>.
\<close>

fun poll_loop :: "pylib \<Rightarrow> string \<Rightarrow> real \<Rightarrow> tick list \<Rightarrow> episode
    \<Rightarrow> (py_error + episode) option" where
  "poll_loop L base_topic deadline [] st = None"
| "poll_loop L base_topic deadline (tk # tks) st =
     (if t_check tk < deadline
      then (let st' = deliver L base_topic (arrivals tk) st
            in case sleep_raises tk of
                 Some e \<Rightarrow> Some (Inl e)
               | None \<Rightarrow>
                   if first_msg_time st' \<noteq> []
                   then (let elapsed_since_first = t_wake tk - hd (first_msg_time st')
                         in if collect_window \<le> elapsed_since_first then Some (Inr st')
                            else poll_loop L base_topic deadline tks st')
                   else poll_loop L base_topic deadline tks st')
      else Some (Inr st))"

definition episode_start :: episode where
  "episode_start = \<lparr>reading = [], got_data = False, first_msg_time = [], thread_alive = True\<rparr>"

text \<open>
  \<^verbatim>\<open>read_airlab(cfg, timeout)\<close>: the value returned or the exception raised, with the
  calls made on the MQTT client. Messages the thread handles between the end of the
  loop and \<^verbatim>\<open>loop_stop()\<close> are \<open>late_arrivals\<close>.
\<close>

definition read_airlab :: "pylib \<Rightarrow> config \<Rightarrow> int \<Rightarrow> bus_env
    \<Rightarrow> ((py_error + (string \<times> pyfloat) list option) \<times> client_call list) option" where
  "read_airlab L cfg timeout env =
     (let base_topic = cfg_base_topic cfg;
          setup = (if cfg_username cfg \<noteq> [] then [UsernamePwSet] else [])
      in case connect_raises env of
           Some e \<Rightarrow>
             if isinstance_Exception e then Some (Inr None, setup @ [Connect])
             else Some (Inl e, setup @ [Connect])
         | None \<Rightarrow>
             (let deadline = t_start env + of_int timeout
              in case poll_loop L base_topic deadline (ticks env) episode_start of
                   None \<Rightarrow> None
                 | Some (Inl e) \<Rightarrow> Some (Inl e, setup @ [Connect, LoopStart])
                 | Some (Inr st) \<Rightarrow>
                     (let st' = deliver L base_topic (late_arrivals env) st;
                          calls = setup @ [Connect, LoopStart, LoopStop, Disconnect]
                      in if \<not> got_data st' then Some (Inr None, calls)
                         else Some (Inr (Some (reading st')), calls))))"

subsection \<open>Single-episode mode\<close>

text \<open>
  How \<^verbatim>\<open>single_reading\<close> ends: it returns, \<^verbatim>\<open>sys.exit(n)\<close> is called, or an exception
  leaves it. \<^verbatim>\<open>main\<close> calls \<^verbatim>\<open>single_reading\<close> last, so the process exits with 0 when
  it returns, with \<open>n\<close> after \<^verbatim>\<open>sys.exit(n)\<close>, and with a non-zero status when an
  exception reaches the top level (1, or 130 for \<^verbatim>\<open>KeyboardInterrupt\<close>).
\<close>

datatype outcome = Returned | SysExit nat | Raised py_error

record process_run =
  ended :: outcome
  db_log :: "db_event list"
  bus_log :: "client_call list"

definition single_reading :: "pylib \<Rightarrow> config \<Rightarrow> bus_env \<Rightarrow> db_env \<Rightarrow> process_run option" where
  "single_reading L cfg env db =
     (case init_raises db of
        Some e \<Rightarrow> Some \<lparr>ended = Raised e, db_log = [], bus_log = []\<rparr>
      | None \<Rightarrow>
          (case read_airlab L cfg 30 env of
             None \<Rightarrow> None
           | Some (Inl e, calls) \<Rightarrow> Some \<lparr>ended = Raised e, db_log = [Closed], bus_log = calls\<rparr>
           | Some (Inr None, calls) \<Rightarrow>
               Some \<lparr>ended = SysExit 1, db_log = [Closed], bus_log = calls\<rparr>
           | Some (Inr (Some r), calls) \<Rightarrow>
               if r = [] then Some \<lparr>ended = SysExit 1, db_log = [Closed], bus_log = calls\<rparr>
               else if validate_reading r
               then (case insert_reading db r of
                       (Inl e, evs) \<Rightarrow>
                         Some \<lparr>ended = Raised e, db_log = evs @ [Closed], bus_log = calls\<rparr>
                     | (Inr u, evs) \<Rightarrow>
                         Some \<lparr>ended = Returned, db_log = evs @ [Closed], bus_log = calls\<rparr>)
               else Some \<lparr>ended = Returned, db_log = [Closed], bus_log = calls\<rparr>))"

definition exit_code :: "outcome \<Rightarrow> nat" where
  "exit_code out =
     (case out of
        Returned \<Rightarrow> 0
      | SysExit n \<Rightarrow> n
      | Raised e \<Rightarrow> if e = KeyboardInterrupt then 130 else 1)"

definition main :: "pylib \<Rightarrow> config \<Rightarrow> bus_env \<Rightarrow> db_env \<Rightarrow> nat option" where
  "main L cfg env db = map_option (\<lambda>run. exit_code (ended run)) (single_reading L cfg env db)"

subsection \<open>The scalar shape as the specification words it\<close>

text \<open>
  The specification's scalar-per-channel shape: strip the base prefix if present,
  split the relative path into segments, take the first segment from the last to the
  first that canonicalizes to a metric, and return that metric with the whole payload
  as a float when the payload is one, the empty reading otherwise.
\<close>

definition scalar_normalize_spec :: "pylib \<Rightarrow> string \<Rightarrow> string \<Rightarrow> string
    \<Rightarrow> (string \<times> pyfloat) list" where
  "scalar_normalize_spec L topic payload base_topic =
     (let relative =
            (if startswith topic base_topic then drop (length base_topic) topic else topic);
          segments = split_on CHR ''/'' relative
      in case List.map_filter canonicalize (rev segments) of
           [] \<Rightarrow> []
         | metric # others \<Rightarrow>
             (case float_of_str L payload of
                None \<Rightarrow> []
              | Some x \<Rightarrow> [(metric, x)]))"

subsection \<open>Sample inputs\<close>

text \<open>
  An integer too large for a double, a JSON object that carries it, and a fragment
  of the Python library: on the payloads named here it answers as \<^verbatim>\<open>json.loads\<close> and
  \<^verbatim>\<open>float\<close> do, and it rejects every other text.
\<close>

definition huge_int :: int where
  "huge_int = 10 ^ 400"

definition big_int_payload :: string where
  \<open>big_int_payload = ''{"co2": 1'' @ replicate 400 (CHR ''0'') @ ''}''\<close>

definition sample_lib :: pylib where
  \<open>sample_lib =
     \<lparr>json_loads =
        (\<lambda>s. if s = big_int_payload then Inr (PDict [(''co2'', PInt huge_int)])
             else if s = ''{"co2": 800, "temp": 21.5, "unknown_field": "x"}''
             then Inr (PDict [(''co2'', PInt 800), (''temp'', PFloat (Fin 21.5)),
                              (''unknown_field'', PStr ''x'')])
             else if s = ''800'' then Inr (PInt 800)
             else if s = ''150'' then Inr (PInt 150)
             else if s = ''21'' then Inr (PInt 21)
             else Inl JSONDecodeError),
      float_of_str =
        (\<lambda>s. if s = ''800'' then Some (Fin 800)
             else if s = ''150'' then Some (Fin 150)
             else if s = ''21'' then Some (Fin 21)
             else None)\<rparr>\<close>

subsection \<open>Notions for the statements on the episode\<close>

text \<open>
  A message is accepted when \<^verbatim>\<open>on_message\<close> merges it: its topic does not end in
  /config and its normalized reading is not empty. The flag matches when
  \<open>got_data\<close> is true exactly if the reading is not empty, and exactly if the time of
  the first accepted message is set. \<open>episode_end\<close> is the state at \<^verbatim>\<open>loop_stop()\<close>.
\<close>

definition accepts :: "pylib \<Rightarrow> string \<Rightarrow> message \<Rightarrow> bool" where
  "accepts L base_topic msg =
     (\<not> endswith (msg_topic msg) ''/config'' \<and>
      (case normalize_message L base_topic (msg_topic msg) (strip (msg_payload msg)) of
         Inr parsed \<Rightarrow> parsed \<noteq> []
       | Inl e \<Rightarrow> False))"

definition flag_matches :: "episode \<Rightarrow> bool" where
  "flag_matches st =
     ((got_data st \<longleftrightarrow> reading st \<noteq> []) \<and> (got_data st \<longleftrightarrow> first_msg_time st \<noteq> []))"

definition episode_end :: "pylib \<Rightarrow> config \<Rightarrow> int \<Rightarrow> bus_env \<Rightarrow> episode option" where
  "episode_end L cfg timeout env =
     (case poll_loop L (cfg_base_topic cfg) (t_start env + of_int timeout) (ticks env)
             episode_start of
        Some (Inr st) \<Rightarrow> Some (deliver L (cfg_base_topic cfg) (late_arrivals env) st)
      | _ \<Rightarrow> None)"

subsection \<open>Sample episodes\<close>

definition sample_cfg :: config where
  "sample_cfg = \<lparr>cfg_base_topic = ''airlab'', cfg_username = [], cfg_password = []\<rparr>"

definition co2_msg :: message where
  "co2_msg = \<lparr>msg_topic = ''airlab/co2'', msg_payload = ''800''\<rparr>"

definition temp_msg :: message where
  "temp_msg = \<lparr>msg_topic = ''airlab/temperature'', msg_payload = ''21''\<rparr>"

definition hot_msg :: message where
  "hot_msg = \<lparr>msg_topic = ''airlab/temperature'', msg_payload = ''150''\<rparr>"

text \<open>A pass of the loop that starts at clock \<open>t\<close>, sleeps for \<open>dur\<close> and hears nothing.\<close>

definition quiet_tick :: "real \<Rightarrow> real \<Rightarrow> tick" where
  "quiet_tick t dur = \<lparr>t_check = t, arrivals = [], sleep_raises = None, t_wake = t + dur\<rparr>"

text \<open>
  The episode of the specification's example: co2 = 800 arrives at 0, temperature = 21
  at 1, the loop polls every half time unit and the window of 3 closes the episode
  at 3.
\<close>

definition sample_env :: bus_env where
  "sample_env =
     \<lparr>connect_raises = None, t_start = 0,
      ticks =
        [\<lparr>t_check = 0, arrivals = [(0, co2_msg)], sleep_raises = None, t_wake = 0.5\<rparr>,
         quiet_tick 0.5 0.5,
         \<lparr>t_check = 1, arrivals = [(1, temp_msg)], sleep_raises = None, t_wake = 1.5\<rparr>,
         quiet_tick 1.5 0.5, quiet_tick 2 0.5, quiet_tick 2.5 0.5],
      late_arrivals = []\<rparr>"

text \<open>
  Nothing arrives for thirty time units; each pass takes 0.5005, so the 60th pass
  starts at 29.5295, before the deadline, and its sleep ends at 30.03. The only
  message arrives at 30.01, after the deadline.
\<close>

definition late_env :: bus_env where
  "late_env =
     \<lparr>connect_raises = None, t_start = 0,
      ticks =
        map (\<lambda>k. quiet_tick (real k * 0.5005) 0.5005) [0..<59]
        @ [\<lparr>t_check = 29.5295, arrivals = [(30.01, co2_msg)], sleep_raises = None,
            t_wake = 30.03\<rparr>,
           quiet_tick 30.03 0.5005],
      late_arrivals = []\<rparr>"

text \<open>SIGINT during the second sleep, after co2 = 800 has arrived.\<close>

definition interrupted_env :: bus_env where
  "interrupted_env =
     \<lparr>connect_raises = None, t_start = 0,
      ticks =
        [\<lparr>t_check = 0, arrivals = [(0.2, co2_msg)], sleep_raises = None, t_wake = 0.5\<rparr>,
         \<lparr>t_check = 0.5, arrivals = [], sleep_raises = Some KeyboardInterrupt, t_wake = 0.7\<rparr>],
      late_arrivals = []\<rparr>"

text \<open>One message, temperature = 150, and the window closes the episode.\<close>

definition hot_env :: bus_env where
  "hot_env =
     \<lparr>connect_raises = None, t_start = 0,
      ticks =
        [\<lparr>t_check = 0, arrivals = [(0, hot_msg)], sleep_raises = None, t_wake = 0.5\<rparr>,
         quiet_tick 0.5 0.5, quiet_tick 1 0.5, quiet_tick 1.5 0.5, quiet_tick 2 0.5,
         quiet_tick 2.5 0.5],
      late_arrivals = []\<rparr>"

text \<open>A storage engine on which every call succeeds.\<close>

definition sample_db :: db_env where
  "sample_db = \<lparr>init_raises = None, attempt_raises = (\<lambda>k. None)\<rparr>"

subsection \<open>Lemmas on strings\<close>

lemma isspace_lower_char: "isspace (lower_char c) = isspace c"
proof -
  have "of_char (char_of (of_char c + 32 :: nat)) = (of_char c + 32 :: nat)"
    if "(of_char c :: nat) \<le> 222"
    using that by (simp add: of_char_of)
  then show ?thesis
    unfolding isspace_def lower_char_def Let_def by auto
qed

lemma lower_char_idem: "lower_char (lower_char c) = lower_char c"
proof -
  have "of_char (char_of (of_char c + 32 :: nat)) = (of_char c + 32 :: nat)"
    if "(of_char c :: nat) \<le> 222"
    using that by (simp add: of_char_of)
  then show ?thesis
    unfolding lower_char_def Let_def by auto
qed

lemma lower_idem: "lower (lower s) = lower s"
  by (simp add: lower_def lower_char_idem)

lemma dropWhile_isspace_lower:
  "dropWhile isspace (map lower_char s) = map lower_char (dropWhile isspace s)"
  by (induction s) (simp_all add: isspace_lower_char)

lemma lower_strip: "lower (strip s) = strip (lower s)"
  by (simp add: lower_def strip_def strip_chars_def dropWhile_isspace_lower rev_map)

lemma dropWhile_rev_dropWhile:
  "dropWhile p (rev (dropWhile p (rev (dropWhile p s)))) = rev (dropWhile p (rev (dropWhile p s)))"
proof (cases "dropWhile p s")
  case Nil
  show ?thesis unfolding Nil by simp
next
  case (Cons a as)
  then have a: "\<not> p a"
    by (metis hd_dropWhile list.sel(1) list.distinct(1))
  have "dropWhile p (rev as @ [a]) = dropWhile p (rev as) @ [a]"
    using a by (induction "rev as") (simp_all add: dropWhile_append)
  then show ?thesis unfolding Cons using a by simp
qed

lemma strip_chars_idem: "strip_chars p (strip_chars p s) = strip_chars p s"
  by (simp add: strip_chars_def dropWhile_rev_dropWhile)

lemma strip_idem: "strip (strip s) = strip s"
  by (simp add: strip_def strip_chars_idem)

lemma strip_lower_idem: "strip (lower (strip (lower s))) = strip (lower s)"
  by (simp add: lower_strip lower_idem strip_idem)

subsection \<open>The canonicalizer is case- and whitespace-insensitive\<close>

lemma canonical_metrics_eq:
  "canonical_metrics =
     [''co2_ppm'', ''temperature_c'', ''humidity_percent'',
      ''pressure_hpa'', ''voc_index'', ''nox_index'']"
  by (simp add: canonical_metrics_def FIELD_ALIASES_def)

text \<open>
  C6. For every string \<open>s\<close>, \<open>canonicalize s\<close> is \<open>canonicalize\<close> of \<open>s\<close> lower-cased
  and stripped of surrounding whitespace, in either order and for each of the two
  alone; and each of the six canonical metric names canonicalizes to itself.
\<close>

theorem canonicalize_insensitive_idempotent:
  "canonicalize (strip (lower s)) = canonicalize s
   \<and> canonicalize (lower (strip s)) = canonicalize s
   \<and> canonicalize (lower s) = canonicalize s
   \<and> canonicalize (strip s) = canonicalize s
   \<and> map canonicalize canonical_metrics = map Some canonical_metrics"
proof -
  have a: "canonicalize (strip (lower s)) = canonicalize s"
    by (simp add: canonicalize_def lower_idem lower_strip strip_idem)
  have b: "canonicalize (lower (strip s)) = canonicalize s"
    by (simp add: canonicalize_def lower_idem lower_strip strip_idem)
  have c: "canonicalize (lower s) = canonicalize s"
    by (simp add: canonicalize_def lower_idem)
  have d: "canonicalize (strip s) = canonicalize s"
    by (simp add: canonicalize_def lower_strip strip_idem)
  have e: "map canonicalize canonical_metrics = map Some canonical_metrics"
    unfolding canonical_metrics_eq
    by (simp add: canonicalize_def FIELD_ALIASES_def strip_def strip_chars_def
        lower_def lower_char_def isspace_def)
  from a b c d e show ?thesis by blast
qed

subsection \<open>The range validator\<close>

lemma float_le_between:
  "(float_le (Fin lo) v \<and> float_le v (Fin hi)) = (\<exists>x. v = Fin x \<and> lo \<le> x \<and> x \<le> hi)"
  by (cases v) auto

lemma validate_reading_items:
  "validate_reading r =
     (\<forall>(k, v) \<in> set r. \<forall>lo hi. map_of VALID_RANGES k = Some (lo, hi)
         \<longrightarrow> (\<exists>x. v = Fin x \<and> lo \<le> x \<and> x \<le> hi))"
proof (induction r)
  case Nil
  show ?case by simp
next
  case (Cons p r)
  obtain k v where p: "p = (k, v)" by (cases p)
  show ?case
  proof (cases "map_of VALID_RANGES k")
    case None
    then show ?thesis using Cons p by simp
  next
    case (Some b)
    obtain lo hi where b: "b = (lo, hi)" by (cases b)
    show ?thesis using Cons p Some b by (auto simp: float_le_between)
  qed
qed

text \<open>
  C2. \<open>validate_reading\<close> passes exactly when every item of the reading whose key has
  an entry \<open>(lo, hi)\<close> in \<open>VALID_RANGES\<close> carries a finite value \<open>x\<close> with
  \<open>lo \<le> x \<le> hi\<close>. One item outside its range fails the whole reading; a key
  without a range and a metric the reading lacks are not checked. NaN and the
  infinities are inside no range.
\<close>

theorem validate_reading_iff:
  "validate_reading r =
     (\<forall>(k, v) \<in> set r. \<forall>lo hi. map_of VALID_RANGES k = Some (lo, hi)
         \<longrightarrow> (\<exists>x. v = Fin x \<and> lo \<le> x \<and> x \<le> hi))"
  by (rule validate_reading_items)

theorem validate_reading_iff_witness:
  "validate_reading [(''co2_ppm'', Fin 800), (''temperature_c'', Fin 21.5)]
   \<and> \<not> validate_reading [(''temperature_c'', Fin 150), (''co2_ppm'', Fin 800)]"
  unfolding validate_reading_iff by (auto simp: VALID_RANGES_def intro!: exI [of _ "43 / 2"])

text \<open>The same on the reading as a partial map, the keys of a dictionary being distinct.\<close>

lemma validate_reading_map:
  assumes "distinct (map fst r)"
  shows "validate_reading r =
     (\<forall>k v lo hi. map_of r k = Some v \<and> map_of VALID_RANGES k = Some (lo, hi)
         \<longrightarrow> (\<exists>x. v = Fin x \<and> lo \<le> x \<and> x \<le> hi))"
  using assms by (fastforce simp: validate_reading_items)

subsection \<open>The durable writer retries on contention only, three attempts at most\<close>

lemma upt_max_retries: "[0..<max_retries] = [0, 1, 2]"
  by (simp add: max_retries_def upt_rec)

lemma insert_loop_step:
  "insert_loop db r (k # rest) =
     (case attempt_raises db k of
        None \<Rightarrow> (Inr (), [Written (row_of r)])
      | Some e \<Rightarrow>
          if is_contention e \<and> k < 2
          then (fst (insert_loop db r rest),
                Failed e # Slept (real k / 2 + 1 / 2) # snd (insert_loop db r rest))
          else (Inl e, [Failed e]))"
  by (auto simp: is_contention_def max_retries_def
      split: option.splits py_error.splits prod.splits)

lemma insert_reading_cases:
  "insert_reading db r =
     (case attempt_raises db 0 of
        None \<Rightarrow> (Inr (), [Written (row_of r)])
      | Some e0 \<Rightarrow>
          if \<not> is_contention e0 then (Inl e0, [Failed e0])
          else (case attempt_raises db 1 of
                  None \<Rightarrow> (Inr (), [Failed e0, Slept 0.5, Written (row_of r)])
                | Some e1 \<Rightarrow>
                    if \<not> is_contention e1 then (Inl e1, [Failed e0, Slept 0.5, Failed e1])
                    else (case attempt_raises db 2 of
                            None \<Rightarrow> (Inr (), [Failed e0, Slept 0.5, Failed e1, Slept 1,
                                               Written (row_of r)])
                          | Some e2 \<Rightarrow> (Inl e2, [Failed e0, Slept 0.5, Failed e1, Slept 1,
                                                 Failed e2]))))"
  unfolding insert_reading_def upt_max_retries
  by (simp add: insert_loop_step del: insert_loop.simps(2) split: option.splits)

lemma insert_reading_written:
  "(Written row \<in> set (snd (insert_reading db r)))
     = (fst (insert_reading db r) = Inr () \<and> row = row_of r)"
  unfolding insert_reading_cases by (auto split: option.splits)

text \<open>
  C7. \<open>insert_reading\<close> runs the write at most three times. The first and the second
  attempt are retried when, and only when, the engine reports contention, after a
  sleep of 0.5 and of 1.0; any other failure is raised at once, and so is every
  failure of the third attempt, contention included.
\<close>

theorem insert_reading_retry:
  "insert_reading db r =
     (case attempt_raises db 0 of
        None \<Rightarrow> (Inr (), [Written (row_of r)])
      | Some e0 \<Rightarrow>
          if \<not> is_contention e0 then (Inl e0, [Failed e0])
          else (case attempt_raises db 1 of
                  None \<Rightarrow> (Inr (), [Failed e0, Slept 0.5, Written (row_of r)])
                | Some e1 \<Rightarrow>
                    if \<not> is_contention e1 then (Inl e1, [Failed e0, Slept 0.5, Failed e1])
                    else (case attempt_raises db 2 of
                            None \<Rightarrow> (Inr (), [Failed e0, Slept 0.5, Failed e1, Slept 1,
                                               Written (row_of r)])
                          | Some e2 \<Rightarrow> (Inl e2, [Failed e0, Slept 0.5, Failed e1, Slept 1,
                                                 Failed e2]))))
   \<and> attempts (snd (insert_reading db r)) \<le> 3"
proof -
  have "attempts (snd (insert_reading db r)) \<le> 3"
    unfolding insert_reading_cases by (simp add: attempts_def split: option.splits)
  with insert_reading_cases [of db r] show ?thesis by blast
qed

subsection \<open>The scalar shape: the rightmost segment that names a metric\<close>

lemma canonicalize_nonempty: "canonicalize s = Some c \<Longrightarrow> c \<noteq> []"
  unfolding canonicalize_def
  by (drule map_of_SomeD) (auto simp: FIELD_ALIASES_def)

lemma try_float_str: "try_float L (PStr s) = Inr (float_of_str L s)"
  by (simp add: try_float_def isinstance_ValueError_def split: option.splits)

lemma scan_parts_first:
  "scan_parts L parts payload =
     Inr (case List.map_filter canonicalize parts of
            [] \<Rightarrow> []
          | metric # others \<Rightarrow>
              (case float_of_str L payload of None \<Rightarrow> [] | Some x \<Rightarrow> [(metric, x)]))"
proof (induction parts)
  case Nil
  show ?case by (simp add: List.map_filter_simps)
next
  case (Cons part parts)
  show ?case
  proof (cases "canonicalize part")
    case None
    then show ?thesis using Cons by (simp add: List.map_filter_simps)
  next
    case (Some canon)
    then have "canon \<noteq> []" by (rule canonicalize_nonempty)
    then show ?thesis using Some Cons
      by (simp add: List.map_filter_simps try_float_str split: option.splits list.splits)
  qed
qed

lemma canonicalize_empty: "canonicalize [] = None"
  by (simp add: canonicalize_def FIELD_ALIASES_def strip_def strip_chars_def lower_def)

lemma split_on_nonempty: "split_on d s \<noteq> []"
  by (induction s) (auto split: list.splits)

lemma split_on_snoc: "split_on d (s @ [d]) = split_on d s @ [[]]"
proof (induction s)
  case Nil
  show ?case by simp
next
  case (Cons c s)
  obtain w ws where w: "split_on d s = w # ws"
    using split_on_nonempty [of d s] by (cases "split_on d s") auto
  show ?case using Cons w by simp
qed

lemma map_filter_rev: "List.map_filter f (rev xs) = rev (List.map_filter f xs)"
  by (simp add: List.map_filter_def rev_map rev_filter)

lemma segments_drop_leading:
  "List.map_filter canonicalize (split_on d (dropWhile (\<lambda>c. c = d) s))
     = List.map_filter canonicalize (split_on d s)"
  by (induction s) (simp_all add: List.map_filter_simps canonicalize_empty)

lemma segments_drop_trailing:
  "List.map_filter canonicalize (split_on d (rev (dropWhile (\<lambda>c. c = d) t)))
     = List.map_filter canonicalize (split_on d (rev t))"
proof (induction t)
  case Nil
  show ?case by simp
next
  case (Cons c t)
  show ?case
  proof (cases "c = d")
    case True
    have "List.map_filter canonicalize (split_on d (rev t @ [d]))
        = List.map_filter canonicalize (split_on d (rev t))"
      by (simp add: split_on_snoc List.map_filter_def canonicalize_empty)
    then show ?thesis using True Cons.IH by simp
  next
    case False
    then show ?thesis by simp
  qed
qed

lemma segments_strip_slashes:
  "List.map_filter canonicalize (rev (split_on d (strip_chars (\<lambda>c. c = d) s)))
     = List.map_filter canonicalize (rev (split_on d s))"
proof -
  have "List.map_filter canonicalize (split_on d (strip_chars (\<lambda>c. c = d) s))
      = List.map_filter canonicalize (split_on d (rev (rev (dropWhile (\<lambda>c. c = d) s))))"
    unfolding strip_chars_def by (rule segments_drop_trailing)
  also have "\<dots> = List.map_filter canonicalize (split_on d s)"
    by (simp add: segments_drop_leading)
  finally show ?thesis
    by (simp only: map_filter_rev)
qed

text \<open>
  C5. \<open>parse_topic_value\<close> never raises and returns what the specification's
  scalar shape returns: with the base prefix stripped and the rest split at the
  slashes, the first segment from the right that canonicalizes to a metric gives the
  key, and the reading is that single entry when the whole payload is a float and
  empty otherwise. \<open>normalize_message\<close> calls it only when the structured shape gave
  the empty reading or raised a \<^verbatim>\<open>ValueError\<close>. Payload "800" on airlab/sensor1/co2
  with base airlab gives co2_ppm = 800.0, given that \<^verbatim>\<open>float("800")\<close> is 800.0.
\<close>

theorem parse_topic_value_scan:
  "parse_topic_value L topic payload base_topic
     = Inr (scalar_normalize_spec L topic payload base_topic)
   \<and> normalize_message L base_topic topic payload =
       (case parse_json_payload L payload of
          Inr (p # ps) \<Rightarrow> Inr (p # ps)
        | Inr [] \<Rightarrow> parse_topic_value L topic payload base_topic
        | Inl e \<Rightarrow> if isinstance_ValueError e
                   then parse_topic_value L topic payload base_topic else Inl e)
   \<and> (float_of_str L ''800'' = Some (Fin 800) \<longrightarrow>
       parse_topic_value L ''airlab/sensor1/co2'' ''800'' ''airlab'' = Inr [(''co2_ppm'', Fin 800)])"
proof -
  have a: "parse_topic_value L topic payload base_topic
     = Inr (scalar_normalize_spec L topic payload base_topic)" for topic payload base_topic
  proof (cases "startswith topic base_topic")
    case True
    then show ?thesis
      by (simp add: parse_topic_value_def scalar_normalize_spec_def scan_parts_first
          segments_strip_slashes)
  next
    case False
    then show ?thesis
      by (simp add: parse_topic_value_def scalar_normalize_spec_def scan_parts_first)
  qed
  have b: "normalize_message L base_topic topic payload =
       (case parse_json_payload L payload of
          Inr (p # ps) \<Rightarrow> Inr (p # ps)
        | Inr [] \<Rightarrow> parse_topic_value L topic payload base_topic
        | Inl e \<Rightarrow> if isinstance_ValueError e
                   then parse_topic_value L topic payload base_topic else Inl e)"
    by (simp add: normalize_message_def split: sum.splits list.splits)
  have c: "scalar_normalize_spec L ''airlab/sensor1/co2'' ''800'' ''airlab'' = [(''co2_ppm'', Fin 800)]"
    if "float_of_str L ''800'' = Some (Fin 800)"
    using that
    by (simp add: scalar_normalize_spec_def strip_chars_def List.map_filter_simps
        canonicalize_def FIELD_ALIASES_def strip_def lower_def lower_char_def isspace_def)
  from a b c show ?thesis by simp
qed

theorem parse_topic_value_scan_witness:
  "float_of_str sample_lib ''800'' = Some (Fin 800)
   \<and> parse_topic_value sample_lib ''airlab/sensor1/co2'' ''800'' ''airlab'' = Inr [(''co2_ppm'', Fin 800)]
   \<and> normalize_message sample_lib ''airlab'' ''airlab/sensor1/co2'' ''800'' = Inr [(''co2_ppm'', Fin 800)]"
proof -
  have h: "float_of_str sample_lib ''800'' = Some (Fin 800)"
    by (simp add: sample_lib_def)
  have j: "parse_json_payload sample_lib ''800'' = Inr []"
    by (simp add: parse_json_payload_def sample_lib_def big_int_payload_def)
  note t = parse_topic_value_scan [of sample_lib "''airlab/sensor1/co2''" "''800''" "''airlab''"]
  from t h have p: "parse_topic_value sample_lib ''airlab/sensor1/co2'' ''800'' ''airlab''
      = Inr [(''co2_ppm'', Fin 800)]"
    by blast
  from t j have "normalize_message sample_lib ''airlab'' ''airlab/sensor1/co2'' ''800''
      = parse_topic_value sample_lib ''airlab/sensor1/co2'' ''800'' ''airlab''"
    by simp
  with h p show ?thesis by simp
qed


subsection \<open>An integer beyond the range of a double escapes the normalizer\<close>

lemma bit_length_bounds:
  "0 < n \<Longrightarrow> 2 ^ (bit_length n - 1) \<le> n \<and> n < 2 ^ bit_length n"
proof (induction n rule: bit_length.induct)
  case (1 n)
  show ?case
  proof (cases "n div 2 = 0")
    case True
    with 1(2) have "n = 1" by linarith
    then show ?thesis by simp
  next
    case False
    then have pos: "0 < n div 2" by simp
    define k where "k = bit_length (n div 2)"
    have ih: "2 ^ (k - 1) \<le> n div 2 \<and> n div 2 < 2 ^ k"
      using 1(1) 1(2) pos unfolding k_def by simp
    have kpos: "0 < k"
      using pos unfolding k_def by (subst bit_length.simps) simp
    then have "(2::nat) ^ k = 2 * 2 ^ (k - 1)"
      by (cases k) simp_all
    with ih have lo: "2 ^ k \<le> n" by linarith
    from ih have hi: "n < 2 ^ Suc k" by simp linarith
    have "bit_length n = Suc k"
      using 1(2) unfolding k_def by (subst bit_length.simps) simp
    with lo hi show ?thesis by simp
  qed
qed

lemma float_of_int_overflow_ge:
  assumes big: "2 ^ 1024 \<le> \<bar>n\<bar>"
  shows "float_of_int n = Inl OverflowError"
proof -
  define a where "a = nat \<bar>n\<bar>"
  define l where "l = bit_length a"
  define e where "e = l - 53"
  define q where "q = a div 2 ^ e"
  have a_big: "2 ^ 1024 \<le> a"
    using big unfolding a_def by (simp add: le_nat_iff)
  then have a_pos: "0 < a"
    by (metis less_le_trans zero_less_numeral zero_less_power)
  from bit_length_bounds [OF a_pos]
  have lo: "2 ^ (l - 1) \<le> a" and hi: "a < 2 ^ l"
    unfolding l_def by simp_all
  from a_big hi have "(2::nat) ^ 1024 < 2 ^ l" by linarith
  then have l_big: "1024 < l"
    by (rule power_less_imp_less_exp [rotated]) simp
  have split: "l - 1 = 52 + e"
    using l_big unfolding e_def by simp
  have "2 ^ 52 * 2 ^ e \<le> a"
    using lo unfolding split by (simp add: power_add)
  then have "2 ^ 52 \<le> q"
    unfolding q_def by (simp add: less_eq_div_iff_mult_less_eq)
  then have A: "2 ^ 52 * 2 ^ e \<le> q * 2 ^ e"
    by (rule mult_le_mono1)
  have "(2::nat) ^ 1024 \<le> 2 ^ (52 + e)"
    using l_big split by (intro power_increasing) simp_all
  then have "(2::nat) ^ 1024 \<le> 2 ^ 52 * 2 ^ e"
    by (simp only: power_add)
  from this A have q_big: "2 ^ 1024 \<le> q * 2 ^ e"
    by (rule order_trans)
  have "q * 2 ^ e \<le> (q + 1) * 2 ^ e" by simp
  with q_big have q1_big: "2 ^ 1024 \<le> (q + 1) * 2 ^ e" by linarith
  show ?thesis
    unfolding float_of_int_def Let_def
    using q_big q1_big unfolding q_def e_def l_def a_def
    by (simp del: bit_length.simps)
qed

lemma huge_int_big: "2 ^ 1024 \<le> \<bar>huge_int\<bar>"
  unfolding huge_int_def by simp

lemma float_of_int_overflow: "float_of_int huge_int = Inl OverflowError"
  by (rule float_of_int_overflow_ge [OF huge_int_big])

lemma canonicalize_co2: "canonicalize ''co2'' = Some ''co2_ppm''"
  by (simp add: canonicalize_def FIELD_ALIASES_def strip_def strip_chars_def
      lower_def lower_char_def isspace_def)

lemma try_float_overflow: "try_float L (PInt huge_int) = Inl OverflowError"
  by (simp add: try_float_def float_of_int_overflow isinstance_ValueError_def)

lemma parse_items_overflow:
  "parse_items L [(''co2'', PInt huge_int)] [] = Inl OverflowError"
  by (simp add: canonicalize_co2 try_float_overflow)

lemma strip_bracketed:
  assumes "\<not> isspace a" and "\<not> isspace b"
  shows "strip (a # xs @ [b]) = a # xs @ [b]"
  using assms by (simp add: strip_def strip_chars_def)


lemma json_loads_big: "json_loads sample_lib big_int_payload = Inr (PDict [(''co2'', PInt huge_int)])"
  by (simp add: sample_lib_def)

lemma strip_big: "strip big_int_payload = big_int_payload"
proof -
  have eq: \<open>big_int_payload = CHR ''{'' # (tl ''{"co2": 1'' @ replicate 400 (CHR ''0'')) @ [CHR ''}'']\<close>
    by (simp add: big_int_payload_def)
  have sp: "\<not> isspace CHR ''{''" "\<not> isspace CHR ''}''"
    by (simp_all add: isspace_def)
  show ?thesis unfolding eq by (rule strip_bracketed [OF sp])
qed

text \<open>
  C4, at the input where it fails. For a payload that \<^verbatim>\<open>json.loads\<close> parses to the
  object with the one item "co2": 10^400, \<open>parse_json_payload\<close> does not drop the
  item that has no float value: \<^verbatim>\<open>float\<close> raises \<^verbatim>\<open>OverflowError\<close>, which
  \<^verbatim>\<open>except (ValueError, TypeError)\<close> in \<open>try_float\<close> does not catch, and the
  exception leaves \<open>parse_json_payload\<close>.
\<close>

theorem parse_json_payload_overflow:
  "json_loads L payload = Inr (PDict [(''co2'', PInt huge_int)])
   \<Longrightarrow> parse_json_payload L payload = Inl OverflowError"
  by (simp add: parse_json_payload_def canonicalize_co2 try_float_overflow)

theorem parse_json_payload_overflow_witness:
  "json_loads sample_lib big_int_payload = Inr (PDict [(''co2'', PInt huge_int)])
   \<and> parse_json_payload sample_lib big_int_payload = Inl OverflowError"
  using parse_json_payload_overflow [of sample_lib big_int_payload] json_loads_big by simp

text \<open>
  C3, at the input where it fails. The same payload on a topic that does not end in
  /config: the \<^verbatim>\<open>OverflowError\<close> is no \<^verbatim>\<open>ValueError\<close>, so the handler's
  \<^verbatim>\<open>except (json.JSONDecodeError, ValueError)\<close> lets it through and it leaves
  \<open>on_message\<close>.
\<close>

theorem on_message_overflow:
  "json_loads L (strip (msg_payload msg)) = Inr (PDict [(''co2'', PInt huge_int)])
   \<Longrightarrow> \<not> endswith (msg_topic msg) ''/config''
   \<Longrightarrow> normalize_message L base_topic (msg_topic msg) (strip (msg_payload msg)) = Inl OverflowError
       \<and> on_message L base_topic now msg st = Inl OverflowError"
  by (simp add: on_message_def normalize_message_def parse_json_payload_def
      canonicalize_co2 try_float_overflow isinstance_ValueError_def)

theorem on_message_overflow_witness:
  "json_loads sample_lib (strip (msg_payload \<lparr>msg_topic = ''airlab/co2'', msg_payload = big_int_payload\<rparr>))
     = Inr (PDict [(''co2'', PInt huge_int)])
   \<and> \<not> endswith (msg_topic \<lparr>msg_topic = ''airlab/co2'', msg_payload = big_int_payload\<rparr>) ''/config''
   \<and> on_message sample_lib ''airlab'' 0 \<lparr>msg_topic = ''airlab/co2'', msg_payload = big_int_payload\<rparr>
        episode_start = Inl OverflowError"
proof -
  have a: "json_loads sample_lib (strip (msg_payload \<lparr>msg_topic = ''airlab/co2'', msg_payload = big_int_payload\<rparr>))
     = Inr (PDict [(''co2'', PInt huge_int)])"
    by (simp add: strip_big json_loads_big)
  have b: "\<not> endswith (msg_topic \<lparr>msg_topic = ''airlab/co2'', msg_payload = big_int_payload\<rparr>) ''/config''"
    by (simp add: endswith_def)
  from on_message_overflow [OF a b, of "''airlab''" 0 episode_start] a b
  show ?thesis by simp
qed

subsection \<open>The structured shape where no integer overflows\<close>

lemma bit_length_small: "n < 2 ^ k \<Longrightarrow> bit_length n \<le> k"
proof (cases "n = 0")
  case True
  then show ?thesis by simp
next
  case False
  then have "0 < n" by simp
  from bit_length_bounds [OF this] have "2 ^ (bit_length n - 1) \<le> n" by simp
  moreover assume "n < 2 ^ k"
  ultimately have "(2::nat) ^ (bit_length n - 1) < 2 ^ k" by linarith
  then have "bit_length n - 1 < k"
    by (rule power_less_imp_less_exp [rotated]) simp
  then show ?thesis by linarith
qed

lemma float_of_int_small:
  assumes "\<bar>n\<bar> < 2 ^ 53"
  shows "float_of_int n = Inr (Fin (of_int n))"
proof -
  define a where "a = nat \<bar>n\<bar>"
  have "a < 2 ^ 53"
    using assms unfolding a_def by (simp add: nat_less_iff)
  then have e: "bit_length a - 53 = 0"
    using bit_length_small [of a 53] by simp
  have "a < 2 ^ 1024"
    using \<open>a < 2 ^ 53\<close> by (rule less_le_trans) (rule power_increasing, simp_all)
  then have nb: "\<not> 2 ^ 1024 \<le> a" by (simp only: not_le)
  have sg: "sgn n * int a = n"
    unfolding a_def by (simp add: mult_sgn_abs)
  show ?thesis
    unfolding float_of_int_def Let_def a_def [symmetric] e
    using nb sg by (simp del: bit_length.simps)
qed

lemma canonicalize_examples:
  "canonicalize ''co2'' = Some ''co2_ppm''"
  "canonicalize ''temp'' = Some ''temperature_c''"
  "canonicalize ''unknown_field'' = None"
  by (simp_all add: canonicalize_def FIELD_ALIASES_def strip_def strip_chars_def
      lower_def lower_char_def isspace_def)

text \<open>The specification's example of the structured shape.\<close>

lemma parse_json_payload_example:
  assumes "json_loads L payload =
      Inr (PDict [(''co2'', PInt 800), (''temp'', PFloat (Fin 21.5)), (''unknown_field'', PStr ''x'')])"
  shows "parse_json_payload L payload = Inr [(''co2_ppm'', Fin 800), (''temperature_c'', Fin 21.5)]"
proof -
  have "float_of_int 800 = Inr (Fin 800)"
    using float_of_int_small [of 800] by simp
  then show ?thesis
    using assms by (simp add: parse_json_payload_def canonicalize_examples try_float_def)
qed

text \<open>The only exception that leaves \<open>try_float\<close> is the \<^verbatim>\<open>OverflowError\<close> of a large integer.\<close>

lemma float_of_int_raises: "float_of_int n = Inl e \<Longrightarrow> e = OverflowError"
  unfolding float_of_int_def Let_def by (simp split: if_splits del: bit_length.simps)

lemma try_float_raises: "try_float L v = Inl e \<Longrightarrow> e = OverflowError"
proof (cases v)
  case (PInt n)
  assume "try_float L v = Inl e"
  then have "float_of_int n = Inl e"
    using PInt by (simp add: try_float_def split: sum.splits if_splits)
  then show ?thesis by (rule float_of_int_raises)
qed (simp_all add: try_float_def isinstance_ValueError_def split: option.splits)

lemma parse_items_raises: "parse_items L items acc = Inl e \<Longrightarrow> e = OverflowError"
proof (induction items arbitrary: acc)
  case Nil
  then show ?case by simp
next
  case (Cons p items)
  obtain k v where p: "p = (k, v)" by (cases p)
  show ?case
  proof (cases "try_float L v")
    case (Inl e')
    then have e': "e' = OverflowError" by (rule try_float_raises)
    show ?thesis
      using Cons.prems Cons.IH p Inl e'
      by (cases "canonicalize k") (auto split: if_splits)
  next
    case (Inr x)
    show ?thesis
      using Cons.prems Cons.IH p Inr
      by (cases "canonicalize k"; cases x) (auto split: if_splits)
  qed
qed

lemma parse_topic_value_total:
  "\<exists>r. parse_topic_value L topic payload base_topic = Inr r"
  by (simp add: parse_topic_value_def scan_parts_first Let_def)

text \<open>
  What can leave the normalization step of \<open>on_message\<close>: an \<^verbatim>\<open>OverflowError\<close>, or an
  exception of \<^verbatim>\<open>json.loads\<close> that is no \<^verbatim>\<open>ValueError\<close>.
\<close>

lemma normalize_message_raises:
  assumes "normalize_message L base_topic topic payload = Inl e"
  shows "e = OverflowError \<or> (json_loads L payload = Inl e \<and> \<not> isinstance_ValueError e)"
proof (cases "parse_json_payload L payload")
  case (Inr parsed)
  obtain r where "parse_topic_value L topic payload base_topic = Inr r"
    using parse_topic_value_total by blast
  then show ?thesis using assms Inr by (simp add: normalize_message_def split: if_splits)
next
  case (Inl e')
  obtain r where r: "parse_topic_value L topic payload base_topic = Inr r"
    using parse_topic_value_total by blast
  have e: "e' = e" and nv: "\<not> isinstance_ValueError e"
    using assms Inl r by (simp_all add: normalize_message_def split: if_splits)
  show ?thesis
  proof (cases "json_loads L payload")
    case (Inl e'')
    then show ?thesis using \<open>parse_json_payload L payload = Inl e'\<close> e nv
      by (simp add: parse_json_payload_def)
  next
    case (Inr data)
    then have "e' = OverflowError"
      using \<open>parse_json_payload L payload = Inl e'\<close> parse_items_raises
      by (cases data) (auto simp: parse_json_payload_def)
    then show ?thesis using e by simp
  qed
qed

text \<open>
  Without an integer beyond the range of a double, the structured shape returns
  what the specification says: the items whose key canonicalizes and whose value
  coerces, the later item winning where two keys name the same metric.
\<close>

lemma parse_items_coerced:
  assumes "\<forall>(k, v) \<in> set items. try_float L v \<noteq> Inl OverflowError"
  shows "parse_items L items acc =
     Inr (dict_update acc
           (List.map_filter
              (\<lambda>(k, v). case canonicalize k of
                           None \<Rightarrow> None
                         | Some canon \<Rightarrow>
                             (case try_float L v of
                                Inr (Some x) \<Rightarrow> Some (canon, x)
                              | _ \<Rightarrow> None))
              items))"
  using assms
proof (induction items arbitrary: acc)
  case Nil
  show ?case by (simp add: List.map_filter_simps dict_update_def)
next
  case (Cons p items)
  obtain k v where p: "p = (k, v)" by (cases p)
  have ih: "parse_items L items acc' =
     Inr (dict_update acc'
           (List.map_filter
              (\<lambda>(k, v). case canonicalize k of
                           None \<Rightarrow> None
                         | Some canon \<Rightarrow>
                             (case try_float L v of
                                Inr (Some x) \<Rightarrow> Some (canon, x)
                              | _ \<Rightarrow> None))
              items))" for acc'
    using Cons.prems by (intro Cons.IH) simp
  show ?case
  proof (cases "canonicalize k")
    case None
    then show ?thesis using p ih by (simp add: List.map_filter_simps)
  next
    case (Some canon)
    then have ne: "canon \<noteq> []" by (rule canonicalize_nonempty)
    show ?thesis
    proof (cases "try_float L v")
      case (Inl e)
      then have "e = OverflowError" by (rule try_float_raises)
      then show ?thesis using Cons.prems p Inl by simp
    next
      case (Inr x)
      then show ?thesis using p ih Some ne
        by (cases x) (simp_all add: List.map_filter_simps dict_update_def)
    qed
  qed
qed

subsection \<open>The episode state: the flag and the reading\<close>

lemma update_nonempty: "AList.update k v d \<noteq> []"
  by (cases d) simp_all

lemma fold_update_nonempty:
  "d \<noteq> [] \<Longrightarrow> fold (\<lambda>(k, v) acc. AList.update k v acc) e d \<noteq> []"
proof (induction e arbitrary: d)
  case Nil
  then show ?case by simp
next
  case (Cons p e)
  obtain k v where p: "p = (k, v)" by (cases p)
  have "AList.update k v d \<noteq> []" by (rule update_nonempty)
  then have "fold (\<lambda>(k, v) acc. AList.update k v acc) e (AList.update k v d) \<noteq> []"
    by (rule Cons.IH)
  then show ?case using p by simp
qed

lemma dict_update_nonempty: "e \<noteq> [] \<Longrightarrow> dict_update d e \<noteq> []"
proof (cases e)
  case Nil
  then show "e \<noteq> [] \<Longrightarrow> ?thesis" by simp
next
  case (Cons p e')
  obtain k v where p: "p = (k, v)" by (cases p)
  have "fold (\<lambda>(k, v) acc. AList.update k v acc) e' (AList.update k v d) \<noteq> []"
    by (rule fold_update_nonempty) (rule update_nonempty)
  then show ?thesis using Cons p by (simp add: dict_update_def)
qed

lemma dict_update_keys: "fst ` set (dict_update d e) = fst ` set d \<union> fst ` set e"
  unfolding dict_update_def
proof (induction e arbitrary: d)
  case Nil
  show ?case by simp
next
  case (Cons p e)
  obtain k v where p: "p = (k, v)" by (cases p)
  have "fst ` set (fold (\<lambda>(k, v) acc. AList.update k v acc) (p # e) d)
      = fst ` set (AList.update k v d) \<union> fst ` set e"
    using Cons.IH [of "AList.update k v d"] p by simp
  also have "\<dots> = ({k} \<union> fst ` set d) \<union> fst ` set e"
    by (simp only: AList.dom_update)
  also have "\<dots> = fst ` set d \<union> fst ` set (p # e)"
    using p by auto
  finally show ?case .
qed

lemma on_message_cases:
  assumes "on_message L b now msg st = Inr st'"
  shows "(\<not> accepts L b msg \<and> st' = st)
       \<or> (accepts L b msg \<and>
          (\<exists>parsed. parsed \<noteq> []
             \<and> normalize_message L b (msg_topic msg) (strip (msg_payload msg)) = Inr parsed
             \<and> st' = st\<lparr>reading := dict_update (reading st) parsed, got_data := True,
                        first_msg_time := (if first_msg_time st = [] then [now] else first_msg_time st)\<rparr>))"
proof (cases "endswith (msg_topic msg) ''/config''")
  case True
  then show ?thesis using assms by (simp add: on_message_def accepts_def)
next
  case False
  note cfg = False
  show ?thesis
  proof (cases "normalize_message L b (msg_topic msg) (strip (msg_payload msg))")
    case (Inl e)
    then show ?thesis using assms cfg by (simp add: on_message_def)
  next
    case (Inr parsed)
    show ?thesis
    proof (cases "parsed = []")
      case True
      then show ?thesis using assms cfg Inr by (simp add: on_message_def accepts_def)
    next
      case False
      then have "st' = st\<lparr>reading := dict_update (reading st) parsed, got_data := True,
                        first_msg_time := (if first_msg_time st = [] then [now] else first_msg_time st)\<rparr>"
        using assms cfg Inr by (cases "first_msg_time st = []") (auto simp: on_message_def)
      moreover have "accepts L b msg"
        using cfg Inr False by (simp add: accepts_def)
      ultimately show ?thesis using Inr False by blast
    qed
  qed
qed

lemma on_message_flag:
  assumes "on_message L b now msg st = Inr st'" and "flag_matches st"
  shows "flag_matches st'"
  using on_message_cases [OF assms(1)] assms(2)
  by (auto simp: flag_matches_def dict_update_nonempty)

lemma on_message_keys:
  assumes "on_message L b now msg st = Inr st'"
  shows "fst ` set (reading st) \<subseteq> fst ` set (reading st')"
  using on_message_cases [OF assms]
  by (elim disjE conjE exE) (simp_all add: dict_update_keys)

lemma on_message_got_data:
  assumes "on_message L b now msg st = Inr st'"
  shows "got_data st' \<longleftrightarrow> got_data st \<or> accepts L b msg"
  using on_message_cases [OF assms] by auto

lemma deliver_flag: "flag_matches st \<Longrightarrow> flag_matches (deliver L b msgs st)"
proof (induction msgs arbitrary: st)
  case Nil
  then show ?case by simp
next
  case (Cons p msgs)
  obtain now msg where p: "p = (now, msg)" by (cases p)
  show ?case
  proof (cases "on_message L b now msg st")
    case (Inl e)
    then show ?thesis using Cons.prems p by (auto simp: flag_matches_def)
  next
    case (Inr st')
    then have "flag_matches st'" using Cons.prems by (rule on_message_flag)
    then have "flag_matches (deliver L b msgs st')" by (rule Cons.IH)
    then show ?thesis using Inr p Cons.prems by simp
  qed
qed

lemma deliver_keys: "fst ` set (reading st) \<subseteq> fst ` set (reading (deliver L b msgs st))"
proof (induction msgs arbitrary: st)
  case Nil
  then show ?case by simp
next
  case (Cons p msgs)
  obtain now msg where p: "p = (now, msg)" by (cases p)
  show ?case
  proof (cases "on_message L b now msg st")
    case (Inl e)
    then show ?thesis using p by simp
  next
    case (Inr st')
    from on_message_keys [OF Inr] Cons.IH [of st'] show ?thesis using Inr p by auto
  qed
qed

lemma deliver_got_data:
  "got_data (deliver L b msgs st) \<Longrightarrow> got_data st \<or> (\<exists>(now, msg) \<in> set msgs. accepts L b msg)"
proof (induction msgs arbitrary: st)
  case Nil
  then show ?case by simp
next
  case (Cons p msgs)
  obtain now msg where p: "p = (now, msg)" by (cases p)
  show ?case
  proof (cases "thread_alive st")
    case False
    then show ?thesis using Cons.prems p by simp
  next
    case True
    show ?thesis
    proof (cases "on_message L b now msg st")
      case (Inl e)
      then show ?thesis using Cons.prems p True by simp
    next
      case (Inr st')
      then have "got_data (deliver L b msgs st')" using Cons.prems p True by simp
      then have "got_data st' \<or> (\<exists>(now, msg) \<in> set msgs. accepts L b msg)" by (rule Cons.IH)
      then show ?thesis using on_message_got_data [OF Inr] p by auto
    qed
  qed
qed

lemma poll_loop_Cons:
  assumes "poll_loop L b d (tk # tks) st = Some (Inr st')"
  shows "(\<not> t_check tk < d \<and> st' = st)
       \<or> (t_check tk < d \<and> sleep_raises tk = None
          \<and> first_msg_time (deliver L b (arrivals tk) st) \<noteq> []
          \<and> collect_window \<le> t_wake tk - hd (first_msg_time (deliver L b (arrivals tk) st))
          \<and> st' = deliver L b (arrivals tk) st)
       \<or> (t_check tk < d \<and> sleep_raises tk = None
          \<and> poll_loop L b d tks (deliver L b (arrivals tk) st) = Some (Inr st'))"
proof (cases "t_check tk < d")
  case False
  then show ?thesis using assms by simp
next
  case True
  note chk = True
  show ?thesis
  proof (cases "sleep_raises tk")
    case (Some e)
    then show ?thesis using assms chk by (simp add: Let_def)
  next
    case None
    show ?thesis
    proof (cases "first_msg_time (deliver L b (arrivals tk) st) \<noteq> []
        \<and> collect_window \<le> t_wake tk - hd (first_msg_time (deliver L b (arrivals tk) st))")
      case True
      then show ?thesis using assms chk None by (simp add: Let_def)
    next
      case False
      then have "poll_loop L b d tks (deliver L b (arrivals tk) st) = Some (Inr st')"
        using assms chk None by (simp add: Let_def split: if_splits)
      then show ?thesis using chk None by simp
    qed
  qed
qed

lemma poll_loop_flag:
  "poll_loop L b d tks st = Some (Inr st') \<Longrightarrow> flag_matches st \<Longrightarrow> flag_matches st'"
proof (induction tks arbitrary: st)
  case Nil
  then show ?case by simp
next
  case (Cons tk tks)
  have fm: "flag_matches (deliver L b (arrivals tk) st)"
    using Cons.prems(2) by (rule deliver_flag)
  from poll_loop_Cons [OF Cons.prems(1)] show ?case
  proof (elim disjE conjE)
    assume "st' = st"
    then show ?thesis using Cons.prems(2) by simp
  next
    assume "st' = deliver L b (arrivals tk) st"
    then show ?thesis using fm by simp
  next
    assume "poll_loop L b d tks (deliver L b (arrivals tk) st) = Some (Inr st')"
    then show ?thesis using fm by (rule Cons.IH)
  qed
qed


lemma sample_not_big:
  "''800'' \<noteq> big_int_payload" "''21'' \<noteq> big_int_payload" "''150'' \<noteq> big_int_payload"
  by (simp_all add: big_int_payload_def)

lemma normalize_sample:
  "normalize_message sample_lib ''airlab'' ''airlab/co2'' ''800'' = Inr [(''co2_ppm'', Fin 800)]"
  "normalize_message sample_lib ''airlab'' ''airlab/temperature'' ''21'' = Inr [(''temperature_c'', Fin 21)]"
  "normalize_message sample_lib ''airlab'' ''airlab/temperature'' ''150'' = Inr [(''temperature_c'', Fin 150)]"
  by (simp_all add: normalize_message_def parse_json_payload_def parse_topic_value_def
      sample_lib_def sample_not_big strip_chars_def canonicalize_def FIELD_ALIASES_def
      strip_def lower_def lower_char_def isspace_def try_float_def)

lemma on_message_sample:
  "on_message sample_lib ''airlab'' now co2_msg st =
     Inr (st\<lparr>reading := AList.update ''co2_ppm'' (Fin 800) (reading st), got_data := True,
             first_msg_time := (if first_msg_time st = [] then [now] else first_msg_time st)\<rparr>)"
  "on_message sample_lib ''airlab'' now temp_msg st =
     Inr (st\<lparr>reading := AList.update ''temperature_c'' (Fin 21) (reading st), got_data := True,
             first_msg_time := (if first_msg_time st = [] then [now] else first_msg_time st)\<rparr>)"
  "on_message sample_lib ''airlab'' now hot_msg st =
     Inr (st\<lparr>reading := AList.update ''temperature_c'' (Fin 150) (reading st), got_data := True,
             first_msg_time := (if first_msg_time st = [] then [now] else first_msg_time st)\<rparr>)"
  by (simp_all add: on_message_def co2_msg_def temp_msg_def hot_msg_def endswith_def
      strip_def strip_chars_def isspace_def normalize_sample dict_update_def)

lemma read_airlab_sample:
  "read_airlab sample_lib sample_cfg 30 sample_env =
     Some (Inr (Some [(''co2_ppm'', Fin 800), (''temperature_c'', Fin 21)]),
           [Connect, LoopStart, LoopStop, Disconnect])"
  by (simp add: read_airlab_def sample_cfg_def sample_env_def quiet_tick_def episode_start_def
      on_message_sample collect_window_def)


lemma poll_loop_keys:
  "poll_loop L b d tks st = Some (Inr st') \<Longrightarrow> fst ` set (reading st) \<subseteq> fst ` set (reading st')"
proof (induction tks arbitrary: st)
  case Nil
  then show ?case by simp
next
  case (Cons tk tks)
  have k: "fst ` set (reading st) \<subseteq> fst ` set (reading (deliver L b (arrivals tk) st))"
    by (rule deliver_keys)
  from poll_loop_Cons [OF Cons.prems] show ?case
  proof (elim disjE conjE)
    assume "st' = st"
    then show ?thesis by simp
  next
    assume "st' = deliver L b (arrivals tk) st"
    then show ?thesis using k by simp
  next
    assume "poll_loop L b d tks (deliver L b (arrivals tk) st) = Some (Inr st')"
    then have "fst ` set (reading (deliver L b (arrivals tk) st)) \<subseteq> fst ` set (reading st')"
      by (rule Cons.IH)
    with k show ?thesis by (rule subset_trans)
  qed
qed

lemma poll_loop_got_data:
  "poll_loop L b d tks st = Some (Inr st') \<Longrightarrow> got_data st'
   \<Longrightarrow> got_data st \<or> (\<exists>tk \<in> set tks. \<exists>(now, msg) \<in> set (arrivals tk). accepts L b msg)"
proof (induction tks arbitrary: st)
  case Nil
  then show ?case by simp
next
  case (Cons tk tks)
  have step: "got_data (deliver L b (arrivals tk) st)
      \<Longrightarrow> got_data st \<or> (\<exists>(now, msg) \<in> set (arrivals tk). accepts L b msg)"
    by (rule deliver_got_data)
  from poll_loop_Cons [OF Cons.prems(1)] show ?case
  proof (elim disjE conjE)
    assume "st' = st"
    then show ?thesis using Cons.prems(2) by simp
  next
    assume "st' = deliver L b (arrivals tk) st"
    then show ?thesis using step Cons.prems(2) by auto
  next
    assume "poll_loop L b d tks (deliver L b (arrivals tk) st) = Some (Inr st')"
    then have "got_data (deliver L b (arrivals tk) st)
        \<or> (\<exists>tk \<in> set tks. \<exists>(now, msg) \<in> set (arrivals tk). accepts L b msg)"
      using Cons.prems(2) by (rule Cons.IH)
    then show ?thesis using step by auto
  qed
qed

lemma poll_loop_returns:
  "\<exists>tk \<in> set tks. d \<le> t_check tk \<Longrightarrow> \<exists>res. poll_loop L b d tks st = Some res"
proof (induction tks arbitrary: st)
  case Nil
  then show ?case by simp
next
  case (Cons tk tks)
  show ?case
  proof (cases "t_check tk < d")
    case False
    then show ?thesis by simp
  next
    case True
    then have "\<exists>tk \<in> set tks. d \<le> t_check tk" using Cons.prems by auto
    then have ih: "\<exists>res. poll_loop L b d tks (deliver L b (arrivals tk) st) = Some res"
      by (rule Cons.IH)
    show ?thesis
    proof (cases "sleep_raises tk")
      case (Some e)
      then show ?thesis using True by (simp add: Let_def)
    next
      case None
      then show ?thesis using True ih by (simp add: Let_def)
    qed
  qed
qed

lemma poll_loop_end:
  "poll_loop L b d tks st = Some (Inr st')
   \<Longrightarrow> (\<exists>tk \<in> set tks. d \<le> t_check tk)
     \<or> (first_msg_time st' \<noteq> []
        \<and> (\<exists>tk \<in> set tks. collect_window \<le> t_wake tk - hd (first_msg_time st')))"
proof (induction tks arbitrary: st)
  case Nil
  then show ?case by simp
next
  case (Cons tk tks)
  from poll_loop_Cons [OF Cons.prems] show ?case
  proof (elim disjE conjE)
    assume "\<not> t_check tk < d"
    then show ?thesis by simp
  next
    assume "st' = deliver L b (arrivals tk) st"
      and "first_msg_time (deliver L b (arrivals tk) st) \<noteq> []"
      and "collect_window \<le> t_wake tk - hd (first_msg_time (deliver L b (arrivals tk) st))"
    then show ?thesis by simp
  next
    assume "poll_loop L b d tks (deliver L b (arrivals tk) st) = Some (Inr st')"
    then have "(\<exists>tk \<in> set tks. d \<le> t_check tk)
     \<or> (first_msg_time st' \<noteq> []
        \<and> (\<exists>tk \<in> set tks. collect_window \<le> t_wake tk - hd (first_msg_time st')))"
      by (rule Cons.IH)
    then show ?thesis by auto
  qed
qed

lemma poll_loop_quiet:
  assumes "\<forall>tk \<in> set tks. t_check tk < d \<and> arrivals tk = [] \<and> sleep_raises tk = None"
    and "first_msg_time st = []"
  shows "poll_loop L b d (tks @ rest) st = poll_loop L b d rest st"
  using assms by (induction tks) (simp_all add: Let_def)

lemma flag_matches_start: "flag_matches episode_start"
  by (simp add: flag_matches_def episode_start_def)

lemma read_airlab_ok:
  assumes "connect_raises env = None"
    and "read_airlab L cfg timeout env = Some (Inr res, calls)"
  shows "\<exists>st. episode_end L cfg timeout env = Some st
           \<and> res = (if got_data st then Some (reading st) else None)
           \<and> calls = (if cfg_username cfg \<noteq> [] then [UsernamePwSet] else [])
                      @ [Connect, LoopStart, LoopStop, Disconnect]"
proof (cases "poll_loop L (cfg_base_topic cfg) (t_start env + of_int timeout) (ticks env) episode_start")
  case None
  then show ?thesis using assms by (simp add: read_airlab_def Let_def)
next
  case (Some r)
  show ?thesis
  proof (cases r)
    case (Inl e)
    then show ?thesis using assms Some by (simp add: read_airlab_def Let_def)
  next
    case (Inr st)
    then show ?thesis using assms Some
      by (cases "got_data (deliver L (cfg_base_topic cfg) (late_arrivals env) st)")
         (auto simp: read_airlab_def episode_end_def Let_def)
  qed
qed

lemma episode_end_flag:
  assumes "episode_end L cfg timeout env = Some st"
  shows "flag_matches st"
proof -
  obtain st0 where p: "poll_loop L (cfg_base_topic cfg) (t_start env + of_int timeout) (ticks env)
        episode_start = Some (Inr st0)"
    and st: "st = deliver L (cfg_base_topic cfg) (late_arrivals env) st0"
    using assms by (auto simp: episode_end_def split: option.splits sum.splits)
  from p flag_matches_start have "flag_matches st0" by (rule poll_loop_flag)
  then show ?thesis unfolding st by (rule deliver_flag)
qed

lemma episode_end_got_data:
  assumes "episode_end L cfg timeout env = Some st" and "got_data st"
  shows "(\<exists>tk \<in> set (ticks env). \<exists>(now, msg) \<in> set (arrivals tk). accepts L (cfg_base_topic cfg) msg)
       \<or> (\<exists>(now, msg) \<in> set (late_arrivals env). accepts L (cfg_base_topic cfg) msg)"
proof -
  obtain st0 where p: "poll_loop L (cfg_base_topic cfg) (t_start env + of_int timeout) (ticks env)
        episode_start = Some (Inr st0)"
    and st: "st = deliver L (cfg_base_topic cfg) (late_arrivals env) st0"
    using assms(1) by (auto simp: episode_end_def split: option.splits sum.splits)
  from assms(2) have "got_data st0
      \<or> (\<exists>(now, msg) \<in> set (late_arrivals env). accepts L (cfg_base_topic cfg) msg)"
    unfolding st by (rule deliver_got_data)
  moreover have "got_data st0 \<Longrightarrow> got_data episode_start
      \<or> (\<exists>tk \<in> set (ticks env). \<exists>(now, msg) \<in> set (arrivals tk). accepts L (cfg_base_topic cfg) msg)"
    using p by (rule poll_loop_got_data)
  moreover have "\<not> got_data episode_start" by (simp add: episode_start_def)
  ultimately show ?thesis by blast
qed

lemma episode_end_how:
  assumes "episode_end L cfg timeout env = Some st"
  shows "(\<exists>tk \<in> set (ticks env). t_start env + of_int timeout \<le> t_check tk)
       \<or> got_data st"
proof -
  obtain st0 where p: "poll_loop L (cfg_base_topic cfg) (t_start env + of_int timeout) (ticks env)
        episode_start = Some (Inr st0)"
    and st: "st = deliver L (cfg_base_topic cfg) (late_arrivals env) st0"
    using assms by (auto simp: episode_end_def split: option.splits sum.splits)
  from p flag_matches_start have fm: "flag_matches st0" by (rule poll_loop_flag)
  from poll_loop_end [OF p] have "(\<exists>tk \<in> set (ticks env). t_start env + of_int timeout \<le> t_check tk)
      \<or> got_data st0"
    using fm by (auto simp: flag_matches_def)
  moreover have "got_data st0 \<Longrightarrow> got_data st"
  proof -
    assume g: "got_data st0"
    have "fst ` set (reading st0) \<subseteq> fst ` set (reading st)"
      unfolding st by (rule deliver_keys)
    moreover have "reading st0 \<noteq> []" using fm g by (simp add: flag_matches_def)
    ultimately have "reading st \<noteq> []" by auto
    moreover have "flag_matches st" using assms by (rule episode_end_flag)
    ultimately show "got_data st" by (simp add: flag_matches_def)
  qed
  ultimately show ?thesis by blast
qed


lemma read_airlab_never_empty:
  "read_airlab L cfg timeout env \<noteq> Some (Inr (Some []), calls)"
proof
  assume r: "read_airlab L cfg timeout env = Some (Inr (Some []), calls)"
  have cn: "connect_raises env = None"
    using r by (cases "connect_raises env") (auto simp: read_airlab_def Let_def split: if_splits)
  from read_airlab_ok [OF cn r] obtain st where e: "episode_end L cfg timeout env = Some st"
    and res: "Some [] = (if got_data st then Some (reading st) else None)"
    by blast
  from e have "flag_matches st" by (rule episode_end_flag)
  with res show False by (auto simp: flag_matches_def split: if_splits)
qed

text \<open>
  C10. After any messages handled from the start of an episode, and at every end of
  the polling loop, \<open>got_data\<close> is true exactly if the reading is not empty (and
  exactly if the time of the first accepted message is set). \<open>on_message\<close> never
  drops a key of the reading, sets the flag exactly when it accepts the message, and
  the reading is not empty then. So \<open>read_airlab\<close> never returns the empty reading:
  the test \<^verbatim>\<open>if not reading\<close> of \<open>single_reading\<close> never fires.
\<close>

theorem got_data_iff_reading_nonempty:
  "flag_matches (deliver L b msgs episode_start)
   \<and> (\<forall>st'. poll_loop L b d tks episode_start = Some (Inr st') \<longrightarrow> flag_matches st')
   \<and> (\<forall>st'. on_message L b now msg st = Inr st' \<longrightarrow>
         fst ` set (reading st) \<subseteq> fst ` set (reading st')
         \<and> (got_data st' \<longleftrightarrow> got_data st \<or> accepts L b msg)
         \<and> (accepts L b msg \<longrightarrow> reading st' \<noteq> []))
   \<and> (\<forall>calls. read_airlab L cfg timeout env \<noteq> Some (Inr (Some []), calls))"
proof -
  have a: "flag_matches (deliver L b msgs episode_start)"
    using flag_matches_start by (rule deliver_flag)
  have b: "flag_matches st'" if "poll_loop L b d tks episode_start = Some (Inr st')" for st'
    using that flag_matches_start by (rule poll_loop_flag)
  have c: "fst ` set (reading st) \<subseteq> fst ` set (reading st')
         \<and> (got_data st' \<longleftrightarrow> got_data st \<or> accepts L b msg)
         \<and> (accepts L b msg \<longrightarrow> reading st' \<noteq> [])"
    if h: "on_message L b now msg st = Inr st'" for st'
  proof -
    have "reading st' \<noteq> []" if "accepts L b msg"
      using on_message_cases [OF h] that by (auto simp: dict_update_nonempty)
    with on_message_keys [OF h] on_message_got_data [OF h] show ?thesis by blast
  qed
  have d: "read_airlab L cfg timeout env \<noteq> Some (Inr (Some []), calls)" for calls
    by (rule read_airlab_never_empty)
  from a b c d show ?thesis by blast
qed

lemma poll_loop_sample:
  "poll_loop sample_lib ''airlab'' 30 (ticks sample_env) episode_start =
     Some (Inr \<lparr>reading = [(''co2_ppm'', Fin 800), (''temperature_c'', Fin 21)], got_data = True,
                first_msg_time = [0], thread_alive = True\<rparr>)"
  by (simp add: sample_env_def quiet_tick_def episode_start_def on_message_sample collect_window_def)

theorem got_data_iff_reading_nonempty_witness:
  "poll_loop sample_lib ''airlab'' 30 (ticks sample_env) episode_start =
     Some (Inr \<lparr>reading = [(''co2_ppm'', Fin 800), (''temperature_c'', Fin 21)], got_data = True,
                first_msg_time = [0], thread_alive = True\<rparr>)
   \<and> flag_matches \<lparr>reading = [(''co2_ppm'', Fin 800), (''temperature_c'', Fin 21)], got_data = True,
                first_msg_time = [0], thread_alive = True\<rparr>
   \<and> on_message sample_lib ''airlab'' 0 co2_msg episode_start =
       Inr \<lparr>reading = [(''co2_ppm'', Fin 800)], got_data = True, first_msg_time = [0],
            thread_alive = True\<rparr>
   \<and> accepts sample_lib ''airlab'' co2_msg"
proof -
  note t = got_data_iff_reading_nonempty [of sample_lib "''airlab''" "[]" 30 "ticks sample_env" 0
      co2_msg episode_start sample_cfg 30 sample_env]
  have o: "on_message sample_lib ''airlab'' 0 co2_msg episode_start =
       Inr \<lparr>reading = [(''co2_ppm'', Fin 800)], got_data = True, first_msg_time = [0],
            thread_alive = True\<rparr>"
    by (simp add: on_message_sample episode_start_def)
  from t poll_loop_sample have "flag_matches \<lparr>reading = [(''co2_ppm'', Fin 800), (''temperature_c'', Fin 21)], got_data = True,
                first_msg_time = [0], thread_alive = True\<rparr>"
    by blast
  moreover from t o have "accepts sample_lib ''airlab'' co2_msg"
    by (simp add: episode_start_def)
  ultimately show ?thesis using poll_loop_sample o by simp
qed


lemma read_airlab_raised:
  assumes "connect_raises env = None"
    and "read_airlab L cfg timeout env = Some (Inl e, calls)"
  shows "calls = (if cfg_username cfg \<noteq> [] then [UsernamePwSet] else []) @ [Connect, LoopStart]"
proof (cases "poll_loop L (cfg_base_topic cfg) (t_start env + of_int timeout) (ticks env) episode_start")
  case None
  then show ?thesis using assms by (simp add: read_airlab_def Let_def)
next
  case (Some r)
  show ?thesis
  proof (cases r)
    case (Inl e')
    then show ?thesis using assms Some by (simp add: read_airlab_def Let_def)
  next
    case (Inr st)
    then show ?thesis using assms Some
      by (cases "got_data (deliver L (cfg_base_topic cfg) (late_arrivals env) st)")
         (auto simp: read_airlab_def Let_def)
  qed
qed

lemma read_airlab_returns:
  assumes "connect_raises env = None"
    and "\<exists>tk \<in> set (ticks env). t_start env + of_int timeout \<le> t_check tk"
  shows "\<exists>out. read_airlab L cfg timeout env = Some out"
proof -
  from poll_loop_returns [OF assms(2)]
  obtain r where "poll_loop L (cfg_base_topic cfg) (t_start env + of_int timeout) (ticks env)
      episode_start = Some r"
    by blast
  then show ?thesis using assms(1)
    by (cases r) (simp_all add: read_airlab_def Let_def)
qed

subsection \<open>What an episode returns\<close>

text \<open>
  \<^verbatim>\<open>time.sleep(0.5)\<close> never returns early, so the \<open>i\<close>-th pass of the loop starts
  \<open>i\<close> half time units after the start or later, and pass number \<open>2 * timeout\<close> (from 0)
  finds the deadline reached: the loop makes at most \<open>2 * timeout\<close> passes through
  its body.
\<close>

lemma ticks_reach_deadline:
  assumes "\<forall>i < length tks. t0 + real i / 2 \<le> t_check (tks ! i)"
    and "nat (2 * timeout) < length tks" and "0 \<le> timeout"
  shows "\<exists>tk \<in> set tks. t0 + of_int timeout \<le> t_check tk"
proof -
  define i where "i = nat (2 * timeout)"
  have "real i / 2 = of_int timeout"
    using assms(3) unfolding i_def by simp
  moreover have "t0 + real i / 2 \<le> t_check (tks ! i)"
    using assms(1,2) unfolding i_def by simp
  moreover have "tks ! i \<in> set tks"
    using assms(2) unfolding i_def by simp
  ultimately show ?thesis by auto
qed

text \<open>
  C8, amended. With the connection made, \<open>read_airlab\<close> returns once the clock read by
  the loop reaches the deadline within the passes given. When it returns, the state
  at \<^verbatim>\<open>loop_stop()\<close> decides: with no message accepted until then it returns no
  reading; otherwise it returns the accumulated reading, which is not empty. The loop
  has ended by the deadline or, after an accepted message, by the collection window.
  A returned reading comes from a message accepted during a sleep of the loop or
  before \<^verbatim>\<open>loop_stop()\<close>, which may be after the deadline: the deadline is only
  looked at between the sleeps.
\<close>

theorem read_airlab_result:
  assumes "connect_raises env = None"
  shows "((\<exists>tk \<in> set (ticks env). t_start env + of_int timeout \<le> t_check tk)
            \<longrightarrow> (\<exists>out. read_airlab L cfg timeout env = Some out))
   \<and> (\<forall>res calls. read_airlab L cfg timeout env = Some (Inr res, calls) \<longrightarrow>
        (\<exists>st. episode_end L cfg timeout env = Some st
           \<and> res = (if got_data st then Some (reading st) else None)
           \<and> (got_data st \<longleftrightarrow> reading st \<noteq> [])
           \<and> (got_data st \<longleftrightarrow> first_msg_time st \<noteq> [])
           \<and> ((\<exists>tk \<in> set (ticks env). t_start env + of_int timeout \<le> t_check tk) \<or> got_data st)
           \<and> (got_data st \<longrightarrow>
                (\<exists>tk \<in> set (ticks env). \<exists>(now, msg) \<in> set (arrivals tk).
                    accepts L (cfg_base_topic cfg) msg)
                \<or> (\<exists>(now, msg) \<in> set (late_arrivals env). accepts L (cfg_base_topic cfg) msg))))"
proof -
  have a: "\<exists>out. read_airlab L cfg timeout env = Some out"
    if "\<exists>tk \<in> set (ticks env). t_start env + of_int timeout \<le> t_check tk"
    using assms that by (rule read_airlab_returns)
  have b: "\<exists>st. episode_end L cfg timeout env = Some st
           \<and> res = (if got_data st then Some (reading st) else None)
           \<and> (got_data st \<longleftrightarrow> reading st \<noteq> [])
           \<and> (got_data st \<longleftrightarrow> first_msg_time st \<noteq> [])
           \<and> ((\<exists>tk \<in> set (ticks env). t_start env + of_int timeout \<le> t_check tk) \<or> got_data st)
           \<and> (got_data st \<longrightarrow>
                (\<exists>tk \<in> set (ticks env). \<exists>(now, msg) \<in> set (arrivals tk).
                    accepts L (cfg_base_topic cfg) msg)
                \<or> (\<exists>(now, msg) \<in> set (late_arrivals env). accepts L (cfg_base_topic cfg) msg))"
    if r: "read_airlab L cfg timeout env = Some (Inr res, calls)" for res calls
  proof -
    from read_airlab_ok [OF assms r] obtain st where e: "episode_end L cfg timeout env = Some st"
      and res: "res = (if got_data st then Some (reading st) else None)"
      by blast
    from e have fm: "flag_matches st" by (rule episode_end_flag)
    note how = episode_end_how [OF e]
    note gd = episode_end_got_data [OF e]
    from fm have f1: "got_data st \<longleftrightarrow> reading st \<noteq> []"
      unfolding flag_matches_def by blast
    from fm have f2: "got_data st \<longleftrightarrow> first_msg_time st \<noteq> []"
      unfolding flag_matches_def by blast
    from e res f1 f2 how gd show ?thesis by blast
  qed
  from a b show ?thesis by blast
qed

lemma late_quiet:
  "\<forall>tk \<in> set (map (\<lambda>k. quiet_tick (real k * 0.5005) 0.5005) [0..<59]).
     t_check tk < 30 \<and> arrivals tk = [] \<and> sleep_raises tk = None"
  by (auto simp: quiet_tick_def)

lemma poll_loop_late:
  "poll_loop sample_lib ''airlab'' 30 (ticks late_env) episode_start =
     Some (Inr \<lparr>reading = [(''co2_ppm'', Fin 800)], got_data = True,
                first_msg_time = [30.01], thread_alive = True\<rparr>)"
proof -
  have "poll_loop sample_lib ''airlab'' 30 (ticks late_env) episode_start =
      poll_loop sample_lib ''airlab'' 30
        [\<lparr>t_check = 29.5295, arrivals = [(30.01, co2_msg)], sleep_raises = None, t_wake = 30.03\<rparr>,
         quiet_tick 30.03 0.5005] episode_start"
    unfolding late_env_def bus_env.simps
    by (rule poll_loop_quiet [OF late_quiet]) (simp add: episode_start_def)
  also have "\<dots> = Some (Inr \<lparr>reading = [(''co2_ppm'', Fin 800)], got_data = True,
                first_msg_time = [30.01], thread_alive = True\<rparr>)"
    by (simp add: quiet_tick_def episode_start_def on_message_sample collect_window_def)
  finally show ?thesis .
qed

lemma read_airlab_late:
  "read_airlab sample_lib sample_cfg 30 late_env =
     Some (Inr (Some [(''co2_ppm'', Fin 800)]), [Connect, LoopStart, LoopStop, Disconnect])"
proof -
  have "connect_raises late_env = None" "t_start late_env = 0" "late_arrivals late_env = []"
    by (simp_all add: late_env_def)
  then show ?thesis
    using poll_loop_late by (simp add: read_airlab_def sample_cfg_def)
qed

theorem read_airlab_result_witness:
  "connect_raises late_env = None
   \<and> (\<exists>tk \<in> set (ticks late_env). t_start late_env + of_int 30 \<le> t_check tk)
   \<and> read_airlab sample_lib sample_cfg 30 late_env =
       Some (Inr (Some [(''co2_ppm'', Fin 800)]), [Connect, LoopStart, LoopStop, Disconnect])
   \<and> (\<exists>st. episode_end sample_lib sample_cfg 30 late_env = Some st
         \<and> got_data st \<and> reading st = [(''co2_ppm'', Fin 800)])"
proof -
  have c: "connect_raises late_env = None"
    by (simp add: late_env_def)
  have d: "\<exists>tk \<in> set (ticks late_env). t_start late_env + of_int 30 \<le> t_check tk"
    by (simp add: late_env_def quiet_tick_def)
  from read_airlab_result [OF c, of 30 sample_lib sample_cfg] read_airlab_late
  obtain st where "episode_end sample_lib sample_cfg 30 late_env = Some st"
    and "Some [(''co2_ppm'', Fin 800)] = (if got_data st then Some (reading st) else None)"
    by blast
  then have "\<exists>st. episode_end sample_lib sample_cfg 30 late_env = Some st
         \<and> got_data st \<and> reading st = [(''co2_ppm'', Fin 800)]"
    by (cases "got_data st") auto
  with c d read_airlab_late show ?thesis by blast
qed

text \<open>
  C8 as it was stated fails: in \<open>late_env\<close> no message is accepted before the
  deadline of 30, the only message arrives at 30.01 during the last sleep, and the
  episode returns its reading instead of the no-data failure.
\<close>

theorem late_message_returns_reading:
  "read_airlab sample_lib sample_cfg 30 late_env =
     Some (Inr (Some [(''co2_ppm'', Fin 800)]), [Connect, LoopStart, LoopStop, Disconnect])
   \<and> list_all (\<lambda>tk. list_all (\<lambda>(now, msg). t_start late_env + 30 \<le> now) (arrivals tk))
        (ticks late_env)
   \<and> late_arrivals late_env = []"
proof -
  have "list_all (\<lambda>tk. list_all (\<lambda>(now, msg). t_start late_env + 30 \<le> now) (arrivals tk))
        (ticks late_env)"
    by (simp add: late_env_def quiet_tick_def list_all_iff)
  moreover have "late_arrivals late_env = []"
    by (simp add: late_env_def)
  ultimately show ?thesis using read_airlab_late by simp
qed


subsection \<open>Disconnecting\<close>

text \<open>
  C9, amended. When the polling loop ends (by the window or by the deadline),
  \<open>read_airlab\<close> calls \<^verbatim>\<open>loop_stop\<close> and \<^verbatim>\<open>disconnect\<close> once each, last of all its
  calls on the client. When an exception ends the episode inside the loop, it calls
  neither: the calls stop at \<^verbatim>\<open>loop_start\<close>.
\<close>

theorem read_airlab_disconnects:
  assumes "connect_raises env = None"
    and "read_airlab L cfg timeout env = Some (out, calls)"
  shows "case out of
           Inr res \<Rightarrow>
             calls = (if cfg_username cfg \<noteq> [] then [UsernamePwSet] else [])
                       @ [Connect, LoopStart, LoopStop, Disconnect]
             \<and> count_list calls Disconnect = 1 \<and> last calls = Disconnect
         | Inl e \<Rightarrow>
             calls = (if cfg_username cfg \<noteq> [] then [UsernamePwSet] else [])
                       @ [Connect, LoopStart]
             \<and> count_list calls Disconnect = 0"
proof (cases out)
  case (Inl e)
  with assms have "calls = (if cfg_username cfg \<noteq> [] then [UsernamePwSet] else [])
      @ [Connect, LoopStart]"
    using read_airlab_raised by blast
  then show ?thesis using Inl by simp
next
  case (Inr res)
  with assms have "calls = (if cfg_username cfg \<noteq> [] then [UsernamePwSet] else [])
      @ [Connect, LoopStart, LoopStop, Disconnect]"
    using read_airlab_ok by blast
  then show ?thesis using Inr by simp
qed

theorem read_airlab_disconnects_witness:
  "connect_raises sample_env = None
   \<and> read_airlab sample_lib sample_cfg 30 sample_env =
       Some (Inr (Some [(''co2_ppm'', Fin 800), (''temperature_c'', Fin 21)]),
             [Connect, LoopStart, LoopStop, Disconnect])
   \<and> count_list [Connect, LoopStart, LoopStop, Disconnect] Disconnect = 1"
proof -
  have c: "connect_raises sample_env = None"
    by (simp add: sample_env_def)
  from read_airlab_disconnects [OF c read_airlab_sample]
  have "count_list [Connect, LoopStart, LoopStop, Disconnect] Disconnect = 1"
    by simp
  with c read_airlab_sample show ?thesis by simp
qed

text \<open>
  C9 as it was stated fails on abnormal termination: a \<^verbatim>\<open>KeyboardInterrupt\<close>
  raised into \<^verbatim>\<open>time.sleep\<close> leaves \<open>read_airlab\<close> with no \<^verbatim>\<open>disconnect\<close>.
\<close>

theorem interrupt_skips_disconnect:
  "read_airlab sample_lib sample_cfg 30 interrupted_env =
     Some (Inl KeyboardInterrupt, [Connect, LoopStart])
   \<and> count_list [Connect, LoopStart] Disconnect = 0"
  by (simp add: read_airlab_def sample_cfg_def interrupted_env_def episode_start_def
      on_message_sample collect_window_def)

lemma single_reading_cases:
  assumes "single_reading L cfg env db = Some run"
  shows "(\<exists>e. init_raises db = Some e \<and> run = \<lparr>ended = Raised e, db_log = [], bus_log = []\<rparr>)
    \<or> (init_raises db = None \<and>
        (\<exists>calls.
           (\<exists>e. read_airlab L cfg 30 env = Some (Inl e, calls)
              \<and> run = \<lparr>ended = Raised e, db_log = [Closed], bus_log = calls\<rparr>)
         \<or> (read_airlab L cfg 30 env = Some (Inr None, calls)
              \<and> run = \<lparr>ended = SysExit 1, db_log = [Closed], bus_log = calls\<rparr>)
         \<or> (\<exists>r. read_airlab L cfg 30 env = Some (Inr (Some r), calls) \<and> r \<noteq> []
              \<and> \<not> validate_reading r
              \<and> run = \<lparr>ended = Returned, db_log = [Closed], bus_log = calls\<rparr>)
         \<or> (\<exists>r e. read_airlab L cfg 30 env = Some (Inr (Some r), calls) \<and> r \<noteq> []
              \<and> validate_reading r \<and> fst (insert_reading db r) = Inl e
              \<and> run = \<lparr>ended = Raised e, db_log = snd (insert_reading db r) @ [Closed],
                        bus_log = calls\<rparr>)
         \<or> (\<exists>r. read_airlab L cfg 30 env = Some (Inr (Some r), calls) \<and> r \<noteq> []
              \<and> validate_reading r \<and> fst (insert_reading db r) = Inr ()
              \<and> run = \<lparr>ended = Returned, db_log = snd (insert_reading db r) @ [Closed],
                        bus_log = calls\<rparr>)))"
proof (cases "init_raises db")
  case (Some e)
  then show ?thesis using assms by (simp add: single_reading_def)
next
  case None
  note init = None
  show ?thesis
  proof (cases "read_airlab L cfg 30 env")
    case None
    then show ?thesis using assms init by (simp add: single_reading_def)
  next
    case (Some p)
    obtain out calls where p: "p = (out, calls)" by (cases p)
    show ?thesis
    proof (cases out)
      case (Inl e)
      then show ?thesis using assms init Some p by (simp add: single_reading_def)
    next
      case (Inr res)
      note out = Inr
      show ?thesis
      proof (cases res)
        case None
        then show ?thesis using assms init Some p out by (simp add: single_reading_def)
      next
        case (Some r)
        have ne: "r \<noteq> []"
          using read_airlab_never_empty [of L cfg 30 env calls] \<open>read_airlab L cfg 30 env = Some p\<close> p out Some
          by auto
        show ?thesis
        proof (cases "validate_reading r")
          case False
          then show ?thesis
            using assms init \<open>read_airlab L cfg 30 env = Some p\<close> p out Some ne
            by (simp add: single_reading_def)
        next
          case True
          obtain res' evs where ir: "insert_reading db r = (res', evs)"
            by (cases "insert_reading db r")
          show ?thesis
          proof (cases res')
            case (Inl e)
            then show ?thesis
              using assms init \<open>read_airlab L cfg 30 env = Some p\<close> p out Some ne True ir
              by (simp add: single_reading_def)
          next
            case (Inr u)
            then show ?thesis
              using assms init \<open>read_airlab L cfg 30 env = Some p\<close> p out Some ne True ir
              by (simp add: single_reading_def)
          qed
        qed
      qed
    qed
  qed
qed


subsection \<open>How the process exits\<close>

text \<open>
  C1, amended. The process exits with 0 exactly when \<open>single_reading\<close> returns, and
  that is exactly after a row was written or after a reading failed validation.
  A reading that fails validation is not written and the exit code is 0. A row
  written is the row of a reading that passed validation. When \<open>read_airlab\<close>
  returns no reading the exit code is 1 and nothing is written.
\<close>

theorem single_reading_exit:
  assumes "single_reading L cfg env db = Some run"
  shows "(exit_code (ended run) = 0 \<longleftrightarrow> ended run = Returned)
   \<and> (ended run = Returned \<longleftrightarrow>
        (\<exists>row. Written row \<in> set (db_log run))
        \<or> (init_raises db = None
            \<and> (\<exists>r calls. read_airlab L cfg 30 env = Some (Inr (Some r), calls)
                  \<and> \<not> validate_reading r)))
   \<and> (\<forall>r calls. init_raises db = None
          \<and> read_airlab L cfg 30 env = Some (Inr (Some r), calls) \<and> \<not> validate_reading r
        \<longrightarrow> ended run = Returned \<and> db_log run = [Closed])
   \<and> (\<forall>row. Written row \<in> set (db_log run)
        \<longrightarrow> (\<exists>r calls. read_airlab L cfg 30 env = Some (Inr (Some r), calls)
               \<and> validate_reading r \<and> row = row_of r))
   \<and> (\<forall>calls. init_raises db = None \<and> read_airlab L cfg 30 env = Some (Inr None, calls)
        \<longrightarrow> ended run = SysExit 1 \<and> db_log run = [Closed])"
  using single_reading_cases [OF assms]
proof (elim disjE exE conjE)
  fix e
  assume "init_raises db = Some e" "run = \<lparr>ended = Raised e, db_log = [], bus_log = []\<rparr>"
  then show ?thesis by (simp add: exit_code_def)
next
  fix calls e
  assume "init_raises db = None" "read_airlab L cfg 30 env = Some (Inl e, calls)"
    "run = \<lparr>ended = Raised e, db_log = [Closed], bus_log = calls\<rparr>"
  then show ?thesis by (simp add: exit_code_def)
next
  fix calls
  assume "init_raises db = None" "read_airlab L cfg 30 env = Some (Inr None, calls)"
    "run = \<lparr>ended = SysExit 1, db_log = [Closed], bus_log = calls\<rparr>"
  then show ?thesis by (simp add: exit_code_def)
next
  fix calls r
  assume "init_raises db = None" "read_airlab L cfg 30 env = Some (Inr (Some r), calls)"
    "\<not> validate_reading r" "run = \<lparr>ended = Returned, db_log = [Closed], bus_log = calls\<rparr>"
  then show ?thesis by (simp add: exit_code_def)
next
  fix calls r e
  assume "init_raises db = None" "read_airlab L cfg 30 env = Some (Inr (Some r), calls)"
    "validate_reading r" "fst (insert_reading db r) = Inl e"
    "run = \<lparr>ended = Raised e, db_log = snd (insert_reading db r) @ [Closed], bus_log = calls\<rparr>"
  then show ?thesis by (simp add: exit_code_def insert_reading_written)
next
  fix calls r
  assume "init_raises db = None" "read_airlab L cfg 30 env = Some (Inr (Some r), calls)"
    "validate_reading r" "fst (insert_reading db r) = Inr ()"
    "run = \<lparr>ended = Returned, db_log = snd (insert_reading db r) @ [Closed], bus_log = calls\<rparr>"
  then show ?thesis by (simp add: exit_code_def insert_reading_written)
qed

lemma read_airlab_hot:
  "read_airlab sample_lib sample_cfg 30 hot_env =
     Some (Inr (Some [(''temperature_c'', Fin 150)]), [Connect, LoopStart, LoopStop, Disconnect])"
  by (simp add: read_airlab_def sample_cfg_def hot_env_def quiet_tick_def episode_start_def
      on_message_sample collect_window_def)

lemma single_reading_hot:
  "single_reading sample_lib sample_cfg hot_env sample_db =
     Some \<lparr>ended = Returned, db_log = [Closed],
           bus_log = [Connect, LoopStart, LoopStop, Disconnect]\<rparr>"
  by (simp add: single_reading_def read_airlab_hot sample_db_def VALID_RANGES_def)

lemma single_reading_sample:
  "single_reading sample_lib sample_cfg sample_env sample_db =
     Some \<lparr>ended = Returned,
           db_log = [Written [Some (Fin 800), Some (Fin 21), None, None, None, None], Closed],
           bus_log = [Connect, LoopStart, LoopStop, Disconnect]\<rparr>"
  by (simp add: single_reading_def read_airlab_sample sample_db_def VALID_RANGES_def
      insert_reading_cases row_of_def)

theorem single_reading_exit_witness:
  "single_reading sample_lib sample_cfg hot_env sample_db =
     Some \<lparr>ended = Returned, db_log = [Closed],
           bus_log = [Connect, LoopStart, LoopStop, Disconnect]\<rparr>
   \<and> init_raises sample_db = None
   \<and> read_airlab sample_lib sample_cfg 30 hot_env =
       Some (Inr (Some [(''temperature_c'', Fin 150)]), [Connect, LoopStart, LoopStop, Disconnect])
   \<and> \<not> validate_reading [(''temperature_c'', Fin 150)]
   \<and> exit_code Returned = 0
   \<and> single_reading sample_lib sample_cfg sample_env sample_db =
     Some \<lparr>ended = Returned,
           db_log = [Written [Some (Fin 800), Some (Fin 21), None, None, None, None], Closed],
           bus_log = [Connect, LoopStart, LoopStop, Disconnect]\<rparr>
   \<and> validate_reading [(''co2_ppm'', Fin 800), (''temperature_c'', Fin 21)]"
proof -
  have i: "init_raises sample_db = None"
    by (simp add: sample_db_def)
  have v: "\<not> validate_reading [(''temperature_c'', Fin 150)]"
    by (simp add: VALID_RANGES_def)
  from single_reading_exit [OF single_reading_hot]
  have x: "exit_code Returned = 0"
    by simp
  from single_reading_exit [OF single_reading_sample] read_airlab_sample
  have w: "validate_reading [(''co2_ppm'', Fin 800), (''temperature_c'', Fin 21)]"
    by simp
  from single_reading_hot i read_airlab_hot v x single_reading_sample w show ?thesis
    by blast
qed

text \<open>
  C1 as it was stated fails: the reading temperature_c = 150 fails validation,
  nothing is written, and the process exits with 0.
\<close>

theorem validation_failure_exits_zero:
  "main sample_lib sample_cfg hot_env sample_db = Some 0
   \<and> read_airlab sample_lib sample_cfg 30 hot_env =
       Some (Inr (Some [(''temperature_c'', Fin 150)]), [Connect, LoopStart, LoopStop, Disconnect])
   \<and> \<not> validate_reading [(''temperature_c'', Fin 150)]
   \<and> map_option db_log (single_reading sample_lib sample_cfg hot_env sample_db) = Some [Closed]"
  by (simp add: main_def single_reading_hot exit_code_def read_airlab_hot VALID_RANGES_def)


end
